theory Spec2Isabelle
  imports Complex_Main "HOL-Library.Word"
begin

unbundle bit_operations_syntax

section \<open>Data model\<close>

text \<open>
  The pupil locator of package \<open>location\<close>: \<open>FindPupil\<close> builds two edge maps, ANDs
  them and hands the result to \<open>findBestCircle\<close>, a two-stage circular Hough search.
  \<open>image.Point\<close> is a pair of Go \<open>int\<close>s and \<open>Circle\<close> embeds it and adds the radius.
  Go's \<open>int\<close> is 64 bits wide; every coordinate below is bounded by an image dimension
  plus a radius, so it is modelled as \<open>int\<close>.
\<close>

record Point =
  X :: int
  Y :: int

record Circle = Point +
  R :: int

text \<open>
  A \<open>gocv.Mat\<close> with one channel: its two dimensions (\<open>Size()[0]\<close> and \<open>Size()[1]\<close>) and
  its elements in row-major order. \<open>uchar\<close> is the element type of the edge images
  (\<open>CV_8U\<close>); the voting matrix holds \<open>int16\<close> (\<open>CV_16S\<close>), kept as an \<open>int\<close> that is
  wrapped to 16 bits after each increment.
\<close>

type_synonym uchar = "8 word"

record 'a Mat =
  rows :: nat
  cols :: nat
  elems :: "'a list"

definition wf :: "'a Mat \<Rightarrow> bool" where
  "wf m \<longleftrightarrow> length (elems m) = rows m * cols m"

datatype fault = OutOfRange | EmptySize | SizeMismatch

definition bindE :: "fault + 'a \<Rightarrow> ('a \<Rightarrow> fault + 'b) \<Rightarrow> fault + 'b" where
  "bindE m f = (case m of Inl e \<Rightarrow> Inl e | Inr v \<Rightarrow> f v)"

text \<open>A \<open>for\<close> loop over a list of indices whose body may fault; the first fault ends it.\<close>

fun foldE :: "('s \<Rightarrow> 'a \<Rightarrow> fault + 's) \<Rightarrow> 's \<Rightarrow> 'a list \<Rightarrow> fault + 's" where
  "foldE f s [] = Inr s"
| "foldE f s (x # xs) = bindE (f s x) (\<lambda>s'. foldE f s' xs)"

definition wrap16 :: "int \<Rightarrow> int" where
  "wrap16 v = (v + 32768) mod 65536 - 32768"

section \<open>What a run takes from outside the source text\<close>

text \<open>
  Three things that the Go source leaves to its platform are parameters of the model,
  collected in one record, so that every theorem quantified over \<open>env\<close> holds whatever
  the platform does there:
  \<^item> \<open>cosDeg i\<close> and \<open>sinDeg i\<close> are the \<open>float64\<close> values
    \<open>math.Cos(float64(i)*math.Pi/180.0)\<close> and \<open>math.Sin(float64(i)*math.Pi/180.0)\<close>,
    and \<open>mulInt n c\<close> is \<open>int(float64(n) * c)\<close>, the rounded product truncated;
  \<^item> \<open>resample src h w i j\<close> is the pixel \<open>(i, j)\<close> that \<open>gocv.Resize\<close> with
    \<open>InterpolationDefault\<close> computes for source \<open>src\<close> and target size \<open>h\<close> by \<open>w\<close>;
  \<^item> \<open>rangeOrder\<close> is the order in which \<open>range circlePoints\<close> visits the keys of
    the map during this run (Go leaves the iteration order of a map unspecified and
    randomises it).
\<close>

record env =
  cosDeg :: "nat \<Rightarrow> real"
  sinDeg :: "nat \<Rightarrow> real"
  mulInt :: "int \<Rightarrow> real \<Rightarrow> int"
  resample :: "uchar Mat \<Rightarrow> nat \<Rightarrow> nat \<Rightarrow> nat \<Rightarrow> nat \<Rightarrow> uchar"
  rangeOrder :: "int list"

text \<open>Go's conversion \<open>int(f)\<close> of a \<open>float64\<close> drops the fraction (towards zero).\<close>

definition goInt :: "real \<Rightarrow> int" where
  "goInt v = (if 0 \<le> v then \<lfloor>v\<rfloor> else \<lceil>v\<rceil>)"

text \<open>
  The reference platform computes in exact real arithmetic, resamples by taking the
  nearest source pixel and visits the radii in increasing order. It is used for
  evaluation at concrete inputs only, and only where \<open>float64\<close> arithmetic gives the same
  numbers: at angle 0 (\<open>cos\<close> is exactly 1 and \<open>sin\<close> exactly 0), at radius 0 (every
  product is zero), and at samples that stay away from the integers.
\<close>

definition nearest :: "uchar Mat \<Rightarrow> nat \<Rightarrow> nat \<Rightarrow> nat \<Rightarrow> nat \<Rightarrow> uchar" where
  "nearest src h w i j =
     elems src ! (min (rows src - 1) (i * rows src div h) * cols src
                  + min (cols src - 1) (j * cols src div w))"

definition ideal :: env where
  "ideal = \<lparr> cosDeg = (\<lambda>i. cos (real i * pi / 180)),
             sinDeg = (\<lambda>i. sin (real i * pi / 180)),
             mulInt = (\<lambda>n c. goInt (real_of_int n * c)),
             resample = nearest,
             rangeOrder = [5, 6, 7, 8, 9, 10, 11, 12, 13, 14] \<rparr>"

section \<open>Geometry table: \<open>calcCirclePoints\<close>\<close>

text \<open>
  Lines 94-109. The loop runs \<open>i\<close> from 0 to 359, computes the sample \<open>p\<close> (lines 100-102)
  and appends it unless it equals \<open>last\<close>, which starts as the zero \<open>image.Point\<close>.
  The loop state is the pair \<open>(ret, last)\<close>.
\<close>

definition samplePoint :: "env \<Rightarrow> int \<Rightarrow> nat \<Rightarrow> Point" where
  "samplePoint ev r i = \<lparr> X = mulInt ev r (cosDeg ev i), Y = mulInt ev r (sinDeg ev i) \<rparr>"

definition sweep :: "env \<Rightarrow> int \<Rightarrow> Point list" where
  "sweep ev r = map (samplePoint ev r) [0..<360]"

fun appendNew :: "Point list \<times> Point \<Rightarrow> Point \<Rightarrow> Point list \<times> Point" where
  "appendNew (ret, lst) p = (if p \<noteq> lst then (ret @ [p], p) else (ret, lst))"

definition calcCirclePoints :: "env \<Rightarrow> int \<Rightarrow> Point list" where
  "calcCirclePoints ev r = fst (foldl appendNew ([], \<lparr> X = 0, Y = 0 \<rparr>) (sweep ev r))"

section \<open>Matrix access\<close>

text \<open>
  \<open>GetUCharAt\<close>, \<open>GetShortAt\<close>, \<open>SetUCharAt\<close> and \<open>SetShortAt\<close> of gocv hand
  \<open>(row, col)\<close> to \<open>cv::Mat::at\<close>, which is defined for positions inside the matrix
  only: outside it a debug build stops on an assertion and a release build reads or
  writes whatever memory lies there. The model makes that a fault. Where the source
  guards the position itself (the bounds of a \<open>for\<close> loop, the test at lines 161-166)
  the guard is part of the model and the fault branch is never taken.
\<close>

definition inRange :: "'a Mat \<Rightarrow> int \<Rightarrow> int \<Rightarrow> bool" where
  "inRange m row col \<longleftrightarrow> 0 \<le> row \<and> row < int (rows m) \<and> 0 \<le> col \<and> col < int (cols m)"

definition pix :: "'a Mat \<Rightarrow> nat \<times> nat \<Rightarrow> 'a" where
  "pix m p = elems m ! (fst p * cols m + snd p)"

definition getAt :: "'a Mat \<Rightarrow> int \<Rightarrow> int \<Rightarrow> fault + 'a" where
  "getAt m row col =
     (if inRange m row col then Inr (pix m (nat row, nat col)) else Inl OutOfRange)"

definition setAt :: "'a Mat \<Rightarrow> int \<Rightarrow> int \<Rightarrow> 'a \<Rightarrow> fault + 'a Mat" where
  "setAt m row col v =
     (if inRange m row col
      then Inr (m\<lparr> elems := (elems m)[nat row * cols m + nat col := v] \<rparr>)
      else Inl OutOfRange)"

abbreviation GetUCharAt :: "uchar Mat \<Rightarrow> int \<Rightarrow> int \<Rightarrow> fault + uchar" where
  "GetUCharAt \<equiv> getAt"

abbreviation SetUCharAt :: "uchar Mat \<Rightarrow> int \<Rightarrow> int \<Rightarrow> uchar \<Rightarrow> fault + uchar Mat" where
  "SetUCharAt \<equiv> setAt"

abbreviation GetShortAt :: "int Mat \<Rightarrow> int \<Rightarrow> int \<Rightarrow> fault + int" where
  "GetShortAt \<equiv> getAt"

abbreviation SetShortAt :: "int Mat \<Rightarrow> int \<Rightarrow> int \<Rightarrow> int \<Rightarrow> fault + int Mat" where
  "SetShortAt \<equiv> setAt"

text \<open>A matrix given by its dimensions and a function of the position.\<close>

definition build :: "nat \<Rightarrow> nat \<Rightarrow> (nat \<Rightarrow> nat \<Rightarrow> 'a) \<Rightarrow> 'a Mat" where
  "build h w f = \<lparr> rows = h, cols = w, elems = map (\<lambda>k. f (k div w) (k mod w)) [0..<h * w] \<rparr>"

definition NewMatWithSize :: "nat \<Rightarrow> nat \<Rightarrow> 'a::zero Mat" where
  "NewMatWithSize h w = \<lparr> rows = h, cols = w, elems = replicate (h * w) 0 \<rparr>"

section \<open>\<open>shrink\<close>\<close>

text \<open>
  OpenCV rounds a \<open>double\<close> to \<open>int\<close> to the nearest integer, halves to the even one.
  \<open>gocv.Resize\<close> with an empty \<open>sz\<close> computes the target size as
  \<open>(round(fx * cols), round(fy * rows))\<close> and refuses an empty one; the pixels come from
  the platform's resampler. Lines 361-372: \<open>shrink\<close> compares the height \<open>Size()[0]\<close>
  with \<open>maxHeight\<close>. The quotients \<open>tgtSz/sz\<close> and \<open>sz/tgtSz\<close> are taken exactly; what
  \<open>float64\<close> rounding does to a product with \<open>mult\<close> is inside \<open>mulInt\<close>.
\<close>

definition cvRound :: "real \<Rightarrow> int" where
  "cvRound v = (let f = \<lfloor>v\<rfloor> in
     if v - of_int f < 1 / 2 then f
     else if 1 / 2 < v - of_int f then f + 1
     else if even f then f else f + 1)"

definition Resize :: "env \<Rightarrow> uchar Mat \<Rightarrow> real \<Rightarrow> real \<Rightarrow> fault + uchar Mat" where
  "Resize ev src fx fy =
     (let w = cvRound (fx * real (cols src)); h = cvRound (fy * real (rows src))
      in if w \<le> 0 \<or> h \<le> 0 then Inl EmptySize
         else Inr (build (nat h) (nat w) (resample ev src (nat h) (nat w))))"

definition shrink :: "env \<Rightarrow> uchar Mat \<Rightarrow> int \<Rightarrow> fault + (uchar Mat \<times> real)" where
  "shrink ev im maxHeight =
     (let sz = real (rows im); tgtSz = real_of_int maxHeight
      in if sz > tgtSz
         then bindE (Resize ev im (tgtSz / sz) (tgtSz / sz)) (\<lambda>ret. Inr (ret, sz / tgtSz))
         else Inr (im, 1))"

section \<open>\<open>findBestCircle\<close>: the coarse pass\<close>

text \<open>
  \<open>init\<close> (lines 85-90) fills the map \<open>circlePoints\<close> for the radii 5 to 14. The loop at
  line 134 visits its entries in the order the run's \<open>range\<close> gives; a radius that is
  not a key is not visited.
\<close>

definition circlePoints :: "env \<Rightarrow> int \<Rightarrow> Point list option" where
  "circlePoints ev r = (if 5 \<le> r \<and> r < 15 then Some (calcCirclePoints ev r) else None)"

text \<open>Lines 152-170: one vote for the centre \<open>(a, b)\<close> if it lies inside \<open>small\<close>.\<close>

definition castVote :: "uchar Mat \<Rightarrow> int \<Rightarrow> int \<Rightarrow> int Mat \<Rightarrow> Point \<Rightarrow> fault + int Mat" where
  "castVote small row col votes cp =
     (let a = row + Y cp; b = col + X cp
      in if a \<ge> int (rows small) \<or> a < 0 \<or> b \<ge> int (cols small) \<or> b < 0 then Inr votes
         else bindE (GetShortAt votes a b) (\<lambda>v. SetShortAt votes a b (wrap16 (v + 1))))"

text \<open>Lines 141-172: black pixels are skipped, every other pixel votes.\<close>

definition votePixel :: "uchar Mat \<Rightarrow> Point list \<Rightarrow> int \<Rightarrow> int Mat \<Rightarrow> int \<Rightarrow> fault + int Mat" where
  "votePixel small pts row votes col =
     bindE (GetUCharAt small row col)
       (\<lambda>v. if v = 0 then Inr votes else foldE (castVote small row col) votes pts)"

definition voteRow :: "uchar Mat \<Rightarrow> Point list \<Rightarrow> int Mat \<Rightarrow> int \<Rightarrow> fault + int Mat" where
  "voteRow small pts votes row = foldE (votePixel small pts row) votes (map int [0..<cols small])"

definition voteGrid :: "uchar Mat \<Rightarrow> Point list \<Rightarrow> fault + int Mat" where
  "voteGrid small pts =
     foldE (voteRow small pts) (NewMatWithSize (rows small) (cols small)) (map int [0..<rows small])"

text \<open>Lines 176-189: a cell replaces the winner only with strictly more votes.\<close>

type_synonym best = "Circle \<times> int"

fun scanPixel :: "int Mat \<Rightarrow> int \<Rightarrow> int \<Rightarrow> best \<Rightarrow> int \<Rightarrow> fault + best" where
  "scanPixel votes r row (winner, winnerVotes) col =
     bindE (GetShortAt votes row col)
       (\<lambda>v. if v > winnerVotes then Inr (\<lparr> X = col, Y = row, R = r \<rparr>, v)
             else Inr (winner, winnerVotes))"

definition scanRow :: "uchar Mat \<Rightarrow> int Mat \<Rightarrow> int \<Rightarrow> best \<Rightarrow> int \<Rightarrow> fault + best" where
  "scanRow small votes r b row = foldE (scanPixel votes r row) b (map int [0..<cols small])"

definition scanGrid :: "uchar Mat \<Rightarrow> int Mat \<Rightarrow> int \<Rightarrow> best \<Rightarrow> fault + best" where
  "scanGrid small votes r b = foldE (scanRow small votes r) b (map int [0..<rows small])"

definition coarseRadius :: "env \<Rightarrow> uchar Mat \<Rightarrow> best \<Rightarrow> int \<Rightarrow> fault + best" where
  "coarseRadius ev small b r =
     (case circlePoints ev r of
        None \<Rightarrow> Inr b
      | Some pts \<Rightarrow> bindE (voteGrid small pts) (\<lambda>votes. scanGrid small votes r b))"

definition noCircle :: Circle where
  "noCircle = \<lparr> X = 0, Y = 0, R = 0 \<rparr>"

definition coarsePass :: "env \<Rightarrow> uchar Mat \<Rightarrow> fault + best" where
  "coarsePass ev small = foldE (coarseRadius ev small) (noCircle, 0) (rangeOrder ev)"

section \<open>\<open>findBestCircle\<close>: the fine pass\<close>

text \<open>
  Lines 237-256. The radius runs from \<open>approximate.R - uncertainty\<close> while it is less
  than \<open>approximate.R + uncertainty\<close>; rows and columns run up to and including
  \<open>+ uncertainty\<close>. The pixel at line 244 is read with no test of \<open>(a, b)\<close>.
\<close>

definition countVote :: "uchar Mat \<Rightarrow> int \<Rightarrow> int \<Rightarrow> int \<Rightarrow> Point \<Rightarrow> fault + int" where
  "countVote im row col votes cp =
     bindE (GetUCharAt im (row + Y cp) (col + X cp))
       (\<lambda>v. Inr (if v \<noteq> 0 then wrap16 (votes + 1) else votes))"

fun fineCandidate :: "uchar Mat \<Rightarrow> int \<Rightarrow> Point list \<Rightarrow> int \<Rightarrow> best \<Rightarrow> int \<Rightarrow> fault + best" where
  "fineCandidate im r pts row (winner, winnerVotes) col =
     bindE (foldE (countVote im row col) 0 pts)
       (\<lambda>votes. if votes > winnerVotes then Inr (\<lparr> X = col, Y = row, R = r \<rparr>, votes)
                 else Inr (winner, winnerVotes))"

definition fineRow :: "uchar Mat \<Rightarrow> Circle \<Rightarrow> int \<Rightarrow> int \<Rightarrow> Point list \<Rightarrow> best \<Rightarrow> int \<Rightarrow> fault + best" where
  "fineRow im approximate uncertainty r pts b row =
     foldE (fineCandidate im r pts row) b [X approximate - uncertainty .. X approximate + uncertainty]"

definition fineRadius :: "env \<Rightarrow> uchar Mat \<Rightarrow> Circle \<Rightarrow> int \<Rightarrow> best \<Rightarrow> int \<Rightarrow> fault + best" where
  "fineRadius ev im approximate uncertainty b r =
     foldE (fineRow im approximate uncertainty r (calcCirclePoints ev r)) b
       [Y approximate - uncertainty .. Y approximate + uncertainty]"

definition finePass :: "env \<Rightarrow> uchar Mat \<Rightarrow> Circle \<Rightarrow> int \<Rightarrow> fault + best" where
  "finePass ev im approximate uncertainty =
     foldE (fineRadius ev im approximate uncertainty) (noCircle, 0)
       [R approximate - uncertainty .. R approximate + uncertainty - 1]"

section \<open>\<open>findBestCircle\<close> and \<open>FindPupil\<close>\<close>

text \<open>Lines 209-215: the coarse winner scaled by \<open>mult\<close>, each coordinate truncated.\<close>

definition scaleUp :: "env \<Rightarrow> Circle \<Rightarrow> real \<Rightarrow> Circle" where
  "scaleUp ev winner mult =
     \<lparr> X = mulInt ev (X winner) mult, Y = mulInt ev (Y winner) mult, R = mulInt ev (R winner) mult \<rparr>"

definition refine :: "env \<Rightarrow> uchar Mat \<Rightarrow> real \<Rightarrow> Circle \<Rightarrow> fault + (Circle \<times> Circle)" where
  "refine ev im mult winner =
     (let approximate = scaleUp ev winner mult
      in if mult = 1 then Inr (approximate, approximate)
         else let uncertainty = \<lceil>mult / 2\<rceil>
              in bindE (finePass ev im approximate uncertainty)
                   (\<lambda>b. Inr (approximate, fst b)))"

definition findBestCircle :: "env \<Rightarrow> uchar Mat \<Rightarrow> fault + (Circle \<times> Circle)" where
  "findBestCircle ev im =
     bindE (shrink ev im 60)
       (\<lambda>sm. bindE (coarsePass ev (fst sm)) (\<lambda>b. refine ev im (snd sm) (fst b)))"

text \<open>
  Lines 40-79. \<open>edges\<close> stands for the OpenCV pipeline of lines 53-77 (normalise, blur,
  the two edge maps and their conjunction), a function of the input image.
\<close>

definition FindPupil :: "env \<Rightarrow> (uchar Mat \<Rightarrow> uchar Mat) \<Rightarrow> uchar Mat \<Rightarrow> fault + (Circle \<times> Circle)" where
  "FindPupil ev edges im = findBestCircle ev (edges im)"



section \<open>\<open>fillHoles\<close>\<close>

text \<open>
  \<open>gocv.FloodFill(&ret, seed, colour)\<close> calls \<open>cv::floodFill\<close> with zero tolerances and
  connectivity 4: the pixels that have the seed's value and are joined to the seed by a
  chain of horizontally or vertically adjacent pixels of that value take the new value.
  The region is computed by adding, as many times as the image has pixels, every such
  pixel that touches the region. The seed is \<open>image.Point{0, 0}\<close> and the new value is
  the first channel of \<open>color.RGBA{0, 0, 0, 255}\<close>, which is 0.
\<close>

definition positions :: "'a Mat \<Rightarrow> (nat \<times> nat) list" where
  "positions m = List.product [0..<rows m] [0..<cols m]"

definition adjacent :: "nat \<times> nat \<Rightarrow> nat \<times> nat \<Rightarrow> bool" where
  "adjacent p q \<longleftrightarrow>
     (fst p = fst q \<and> (snd p = Suc (snd q) \<or> snd q = Suc (snd p))) \<or>
     (snd p = snd q \<and> (fst p = Suc (fst q) \<or> fst q = Suc (fst p)))"

definition grow :: "uchar Mat \<Rightarrow> uchar \<Rightarrow> (nat \<times> nat) set \<Rightarrow> (nat \<times> nat) set" where
  "grow m v S = S \<union> {q \<in> set (positions m). pix m q = v \<and> (\<exists>p \<in> S. adjacent p q)}"

definition floodRegion :: "uchar Mat \<Rightarrow> nat \<times> nat \<Rightarrow> (nat \<times> nat) set" where
  "floodRegion m seed = (grow m (pix m seed) ^^ (rows m * cols m)) {seed}"

definition FloodFill :: "uchar Mat \<Rightarrow> Point \<Rightarrow> uchar \<Rightarrow> fault + uchar Mat" where
  "FloodFill m seed newVal =
     (if inRange m (Y seed) (X seed)
      then Inr (build (rows m) (cols m)
                  (\<lambda>i j. if (i, j) \<in> floodRegion m (nat (Y seed), nat (X seed)) then newVal
                         else pix m (i, j)))
      else Inl OutOfRange)"

definition BitwiseNot :: "uchar Mat \<Rightarrow> uchar Mat" where
  "BitwiseNot m = m\<lparr> elems := map (\<lambda>v. NOT v) (elems m) \<rparr>"

definition BitwiseAnd :: "uchar Mat \<Rightarrow> uchar Mat \<Rightarrow> fault + uchar Mat" where
  "BitwiseAnd a b =
     (if rows a = rows b \<and> cols a = cols b
      then Inr (a\<lparr> elems := map2 (\<lambda>v w. v AND w) (elems a) (elems b) \<rparr>)
      else Inl SizeMismatch)"

text \<open>
  Lines 331-356. The first loop whitens the first and last pixel of every row, the
  second the first and last row between them; then the flood from \<open>(0, 0)\<close>, the
  inversion and the conjunction with the input.
\<close>

definition borderRow :: "uchar Mat \<Rightarrow> nat \<Rightarrow> fault + uchar Mat" where
  "borderRow ret row =
     bindE (SetUCharAt ret (int row) 0 255)
       (\<lambda>m. SetUCharAt m (int row) (int (cols m) - 1) 255)"

definition borderCol :: "uchar Mat \<Rightarrow> nat \<Rightarrow> fault + uchar Mat" where
  "borderCol ret col =
     bindE (SetUCharAt ret 0 (int col) 255)
       (\<lambda>m. SetUCharAt m (int (rows m) - 1) (int col) 255)"

definition whiteBorder :: "uchar Mat \<Rightarrow> fault + uchar Mat" where
  "whiteBorder src =
     bindE (foldE borderRow src [0..<rows src])
       (\<lambda>ret. foldE borderCol ret [1..<cols ret - 1])"

definition fillHoles :: "uchar Mat \<Rightarrow> fault + uchar Mat" where
  "fillHoles src =
     bindE (whiteBorder src)
       (\<lambda>ret. bindE (FloodFill ret \<lparr> X = 0, Y = 0 \<rparr> 0)
          (\<lambda>flooded. BitwiseAnd src (BitwiseNot flooded)))"

section \<open>Predicates used in the statements\<close>

text \<open>
  \<open>shaped h w m\<close>: the matrix has \<open>h\<close> rows, \<open>w\<close> columns and as many elements;
  \<open>allZero m\<close>: an edge image with no foreground pixel.
\<close>

definition shaped :: "nat \<Rightarrow> nat \<Rightarrow> 'a Mat \<Rightarrow> bool" where
  "shaped h w m \<longleftrightarrow> rows m = h \<and> cols m = w \<and> length (elems m) = h * w"

definition allZero :: "uchar Mat \<Rightarrow> bool" where
  "allZero m \<longleftrightarrow> (\<forall>v \<in> set (elems m). v = 0)"


definition onBorder :: "'a Mat \<Rightarrow> nat \<times> nat \<Rightarrow> bool" where
  "onBorder m p \<longleftrightarrow> fst p = 0 \<or> Suc (fst p) = rows m \<or> snd p = 0 \<or> Suc (snd p) = cols m"

definition painted :: "uchar Mat \<Rightarrow> (nat \<times> nat) set \<Rightarrow> uchar Mat \<Rightarrow> bool" where
  "painted src S m \<longleftrightarrow> wf m \<and> rows m = rows src \<and> cols m = cols src \<and>
     (\<forall>i < rows src. \<forall>j < cols src. pix m (i, j) = (if (i, j) \<in> S then 255 else pix src (i, j)))"

definition bordered :: "uchar Mat \<Rightarrow> uchar Mat" where
  "bordered src = build (rows src) (cols src) (\<lambda>i j. if onBorder src (i, j) then 255 else pix src (i, j))"

definition kept :: "uchar Mat \<Rightarrow> (nat \<times> nat) set" where
  "kept src = floodRegion (bordered src) (0, 0)"

text \<open>A 5 by 5 image, black but for one white pixel in the middle.\<close>

definition blob5 :: "uchar Mat" where
  "blob5 = build 5 5 (\<lambda>i j. if i = 2 \<and> j = 2 then 255 else 0)"

text \<open>
  \<open>deg i\<close> is the angle of \<open>i\<close> degrees. \<open>inCube a u b\<close>: the running winner of the fine
  pass has no vote yet, or lies in the part of the cube around \<open>a\<close> that the three loops
  of lines 237-240 visit.
\<close>

definition deg :: "nat \<Rightarrow> real" where
  "deg i = real i * pi / 180"

definition inCube :: "Circle \<Rightarrow> int \<Rightarrow> best \<Rightarrow> bool" where
  "inCube a u b \<longleftrightarrow> snd b \<le> 0 \<or>
     (R a - u \<le> R (fst b) \<and> R (fst b) < R a + u \<and>
      Y a - u \<le> Y (fst b) \<and> Y (fst b) \<le> Y a + u \<and>
      X a - u \<le> X (fst b) \<and> X (fst b) \<le> X a + u)"

text \<open>
  An edge image of one row and seven columns whose only foreground pixel is in column 1,
  a voting matrix of that shape, and the reference platform with the first two radii
  visited in the other order.
\<close>

definition im7 :: "uchar Mat" where
  "im7 = \<lparr> rows = 1, cols = 7, elems = [0, 255, 0, 0, 0, 0, 0] \<rparr>"

definition row7 :: "int list \<Rightarrow> int Mat" where
  "row7 vs = \<lparr> rows = 1, cols = 7, elems = vs \<rparr>"

definition swapped :: env where
  "swapped = ideal\<lparr> rangeOrder := [6, 5, 7, 8, 9, 10, 11, 12, 13, 14] \<rparr>"

section \<open>Faults and loops\<close>

lemma bindE_Inr [simp]: "bindE (Inr v) f = f v"
  by (simp add: bindE_def)

lemma bindE_Inl [simp]: "bindE (Inl e) f = Inl e"
  by (simp add: bindE_def)

lemma bindE_eq_Inr: "bindE m f = Inr y \<longleftrightarrow> (\<exists>v. m = Inr v \<and> f v = Inr y)"
  by (cases m) auto

lemma foldE_append: "foldE f s (xs @ ys) = bindE (foldE f s xs) (\<lambda>s'. foldE f s' ys)"
proof (induction xs arbitrary: s)
  case Nil
  show ?case by simp
next
  case (Cons x xs)
  show ?case by (cases "f s x") (simp_all add: Cons.IH)
qed

section \<open>Properties of the geometry table\<close>

lemma remdups_adj_hd_tl: "remdups_adj (p # ps) = p # tl (remdups_adj (p # ps))"
  by (cases ps) auto

lemma foldl_appendNew:
  "fst (foldl appendNew (ret, l) ps) = ret @ tl (remdups_adj (l # ps))"
proof (induction ps arbitrary: ret l)
  case Nil
  show ?case by simp
next
  case (Cons p ps)
  show ?case
  proof (cases "p = l")
    case True
    then show ?thesis using Cons.IH [of ret l] by simp
  next
    case False
    have "fst (foldl appendNew (ret, l) (p # ps)) = (ret @ [p]) @ tl (remdups_adj (p # ps))"
      using False Cons.IH [of "ret @ [p]" p] by simp
    also have "\<dots> = ret @ remdups_adj (p # ps)"
      using remdups_adj_hd_tl [of p ps] by simp
    finally show ?thesis using False by simp
  qed
qed

lemma calcCirclePoints_collapse:
  "calcCirclePoints ev r = tl (remdups_adj (\<lparr> X = 0, Y = 0 \<rparr> # sweep ev r))"
  by (simp add: calcCirclePoints_def foldl_appendNew)

lemma distinct_adj_tl: "distinct_adj xs \<Longrightarrow> distinct_adj (tl xs)"
  by (cases xs) (auto simp: distinct_adj_Cons)

lemma calcCirclePoints_distinct_adj: "distinct_adj (calcCirclePoints ev r)"
  by (simp add: calcCirclePoints_collapse distinct_adj_tl)

lemma length_calcCirclePoints: "length (calcCirclePoints ev r) \<le> 360"
proof -
  have "length (remdups_adj (\<lparr> X = 0, Y = 0 \<rparr> # sweep ev r)) \<le> 361"
    using remdups_adj_length [of "\<lparr> X = 0, Y = 0 \<rparr> # sweep ev r"] by (simp add: sweep_def)
  then show ?thesis by (simp add: calcCirclePoints_collapse)
qed

lemma goInt_zero [simp]: "goInt 0 = 0"
  by (simp add: goInt_def)

lemma goInt_of_int [simp]: "goInt (of_int n) = n"
  by (simp add: goInt_def)

lemma samplePoint_ideal_zero: "samplePoint ideal 0 i = \<lparr> X = 0, Y = 0 \<rparr>"
  by (simp add: samplePoint_def ideal_def)

lemma samplePoint_ideal_first: "samplePoint ideal r 0 = \<lparr> X = r, Y = 0 \<rparr>"
  by (simp add: samplePoint_def ideal_def)

lemma sweep_first: "sweep ev r = samplePoint ev r 0 # map (samplePoint ev r) [Suc 0..<360]"
proof -
  have "[0..<360] = 0 # [Suc 0..<360]" by (rule upt_conv_Cons) simp
  then show ?thesis by (simp only: sweep_def list.map)
qed

lemma calcCirclePoints_ideal_first:
  assumes "r \<noteq> 0"
  shows "calcCirclePoints ideal r = \<lparr> X = r, Y = 0 \<rparr> # tl (calcCirclePoints ideal r)"
    and "calcCirclePoints ideal r = remdups_adj (sweep ideal r)"
proof -
  let ?rest = "map (samplePoint ideal r) [Suc 0..<360]"
  have ne: "\<lparr> X = 0, Y = 0 \<rparr> \<noteq> \<lparr> X = r, Y = 0 \<rparr>" using assms by simp
  have sw: "sweep ideal r = \<lparr> X = r, Y = 0 \<rparr> # ?rest"
    by (simp add: sweep_first [of ideal r] samplePoint_ideal_first)
  show c: "calcCirclePoints ideal r = remdups_adj (sweep ideal r)"
    using ne by (simp add: calcCirclePoints_collapse sw)
  show "calcCirclePoints ideal r = \<lparr> X = r, Y = 0 \<rparr> # tl (calcCirclePoints ideal r)"
    unfolding c sw by (rule remdups_adj_hd_tl)
qed

lemma sweep_ideal_zero: "sweep ideal 0 = map (\<lambda>i. \<lparr> X = 0, Y = 0 \<rparr>) [0..<360]"
  unfolding sweep_def by (rule map_cong) (simp_all add: samplePoint_ideal_zero)

lemma remdups_adj_const_Cons:
  "remdups_adj (c # map (\<lambda>i. c) xs) = [c]"
  by (induction xs) simp_all

lemma remdups_adj_const:
  "xs \<noteq> [] \<Longrightarrow> remdups_adj (map (\<lambda>i. c) xs) = [c]"
  using remdups_adj_const_Cons [of c "tl xs"] by (cases xs) simp_all

lemma upt_360_nonempty: "[0..<360] \<noteq> []"
  by simp

lemma cvRound_of_int [simp]: "cvRound (of_int n) = n"
  by (simp add: cvRound_def)

lemma shrink_small:
  "rows im \<le> 60 \<Longrightarrow> shrink ev im 60 = Inr (im, 1)"
  by (simp add: shrink_def)

lemma shrink_large:
  assumes "60 < rows im"
  shows "shrink ev im 60 =
     (let w = cvRound (60 / real (rows im) * real (cols im))
      in if w \<le> 0 then Inl EmptySize
         else Inr (build 60 (nat w) (resample ev im 60 (nat w)), real (rows im) / 60))"
proof -
  have "60 / real (rows im) * real (rows im) = 60" using assms by simp
  then have "cvRound (60 / real (rows im) * real (rows im)) = 60"
    using cvRound_of_int [of 60] by simp
  then show ?thesis using assms by (simp add: shrink_def Resize_def Let_def)
qed

lemma foldE_total:
  assumes "P s"
    and "\<And>s x. P s \<Longrightarrow> x \<in> set xs \<Longrightarrow> \<exists>s'. f s x = Inr s' \<and> P s'"
  shows "\<exists>s'. foldE f s xs = Inr s' \<and> P s'"
  using assms
proof (induction xs arbitrary: s)
  case Nil
  then show ?case by simp
next
  case (Cons x xs)
  from Cons.prems obtain s1 where s1: "f s x = Inr s1" "P s1" by fastforce
  have "\<exists>s'. foldE f s1 xs = Inr s' \<and> P s'"
    using Cons.IH [OF s1(2)] Cons.prems(2) by simp
  then show ?case using s1 by simp
qed

lemma foldE_only_fault:
  assumes "foldE f s xs = Inl e"
    and "\<And>s x e. x \<in> set xs \<Longrightarrow> f s x = Inl e \<Longrightarrow> e = OutOfRange"
  shows "e = OutOfRange"
  using assms
proof (induction xs arbitrary: s)
  case Nil
  then show ?case by simp
next
  case (Cons x xs)
  show ?case
  proof (cases "f s x")
    case (Inl e')
    then show ?thesis using Cons.prems(1) Cons.prems(2) [of x s e] by simp
  next
    case (Inr s1)
    have "foldE f s1 xs = Inl e" using Inr Cons.prems(1) by simp
    then show ?thesis
    proof (rule Cons.IH)
      fix s y e
      assume "y \<in> set xs" "f s y = Inl e"
      then show "e = OutOfRange" using Cons.prems(2) [of y s e] by simp
    qed
  qed
qed

lemma foldE_fault:
  assumes "x \<in> set xs"
    and "\<And>s. f s x = Inl OutOfRange"
    and "\<And>s y e. y \<in> set xs \<Longrightarrow> f s y = Inl e \<Longrightarrow> e = OutOfRange"
  shows "foldE f s xs = Inl OutOfRange"
  using assms
proof (induction xs arbitrary: s)
  case Nil
  then show ?case by simp
next
  case (Cons y ys)
  show ?case
  proof (cases "f s y")
    case (Inl e)
    then have "e = OutOfRange" using Cons.prems(3) [of y s e] by simp
    then show ?thesis using Inl by simp
  next
    case (Inr s1)
    have "x \<noteq> y" using Inr Cons.prems(2) [of s] by auto
    then have "x \<in> set ys" using Cons.prems(1) by simp
    then have "foldE f s1 ys = Inl OutOfRange"
    proof (rule Cons.IH)
      show "\<And>s. f s x = Inl OutOfRange" by (rule Cons.prems(2))
    next
      fix s y e
      assume "y \<in> set ys" "f s y = Inl e"
      then show "e = OutOfRange" using Cons.prems(3) [of y s e] by simp
    qed
    then show ?thesis using Inr by simp
  qed
qed

lemma getAt_fault: "getAt m row col = Inl e \<Longrightarrow> e = OutOfRange"
  by (auto simp: getAt_def split: if_splits)

lemma countVote_fault: "countVote im row col v cp = Inl e \<Longrightarrow> e = OutOfRange"
  by (cases "GetUCharAt im (row + Y cp) (col + X cp)") (auto simp: countVote_def dest: getAt_fault)

lemma countVote_outside:
  "\<not> inRange im (row + Y cp) (col + X cp) \<Longrightarrow> countVote im row col v cp = Inl OutOfRange"
  by (simp add: countVote_def getAt_def)

lemma fineCandidate_fault: "fineCandidate im r pts row b col = Inl e \<Longrightarrow> e = OutOfRange"
proof -
  assume a: "fineCandidate im r pts row b col = Inl e"
  obtain w wv where b: "b = (w, wv)" by (cases b)
  show ?thesis
  proof (cases "foldE (countVote im row col) 0 pts")
    case (Inl e')
    then have "e' = OutOfRange" by (rule foldE_only_fault) (rule countVote_fault)
    then show ?thesis using a b Inl by simp
  next
    case (Inr v)
    then show ?thesis using a b by (simp split: if_splits)
  qed
qed

lemma fineCandidate_outside:
  assumes "cp \<in> set pts" "\<not> inRange im (row + Y cp) (col + X cp)"
  shows "fineCandidate im r pts row b col = Inl OutOfRange"
proof -
  obtain w wv where b: "b = (w, wv)" by (cases b)
  have "foldE (countVote im row col) 0 pts = Inl OutOfRange"
    using assms(1) countVote_outside [OF assms(2)] countVote_fault
    by (rule foldE_fault)
  then show ?thesis using b by simp
qed

lemma fineRow_fault: "fineRow im a u r pts b row = Inl e \<Longrightarrow> e = OutOfRange"
  unfolding fineRow_def by (erule foldE_only_fault) (rule fineCandidate_fault)

lemma fineRadius_fault: "fineRadius ev im a u b r = Inl e \<Longrightarrow> e = OutOfRange"
  unfolding fineRadius_def by (erule foldE_only_fault) (rule fineRow_fault)

lemma finePass_outside:
  assumes r: "R a - u \<le> r" "r < R a + u"
    and row: "Y a - u \<le> row" "row \<le> Y a + u"
    and col: "X a - u \<le> col" "col \<le> X a + u"
    and cp: "cp \<in> set (calcCirclePoints ev r)"
    and out: "\<not> inRange im (row + Y cp) (col + X cp)"
  shows "finePass ev im a u = Inl OutOfRange"
proof -
  have c: "\<And>b. fineRow im a u r (calcCirclePoints ev r) b row = Inl OutOfRange"
    unfolding fineRow_def
    by (rule foldE_fault [where x = col]) (use col fineCandidate_outside [OF cp out] fineCandidate_fault in auto)
  have rr: "\<And>b. fineRadius ev im a u b r = Inl OutOfRange"
    unfolding fineRadius_def
    by (rule foldE_fault [where x = row]) (use row c fineRow_fault in auto)
  show ?thesis
    unfolding finePass_def
    by (rule foldE_fault [where x = r]) (use r rr fineRadius_fault in auto)
qed

lemma idx_less: "i < h \<Longrightarrow> j < w \<Longrightarrow> i * w + j < h * (w::nat)"
proof -
  assume a: "i < h" "j < w"
  have "i * w + j < Suc i * w" using a(2) by simp
  also have "\<dots> \<le> h * w" using a(1) by (intro mult_le_mono1) simp
  finally show ?thesis .
qed

lemma inRange_int [simp]: "inRange m (int i) (int j) \<longleftrightarrow> i < rows m \<and> j < cols m"
  by (simp add: inRange_def)

lemma pix_build [simp]: "i < h \<Longrightarrow> j < w \<Longrightarrow> pix (build h w f) (i, j) = f i j"
  using idx_less [of i h j w] by (simp add: pix_def build_def)

lemma build_sel [simp]: "rows (build h w f) = h" "cols (build h w f) = w"
  by (simp_all add: build_def)

lemma wf_build [simp]: "wf (build h w f)"
  by (simp add: wf_def build_def)

lemma NewMat_sel [simp]: "rows (NewMatWithSize h w) = h" "cols (NewMatWithSize h w) = w"
  by (simp_all add: NewMatWithSize_def)

lemma pix_NewMat [simp]: "i < h \<Longrightarrow> j < w \<Longrightarrow> pix (NewMatWithSize h w) (i, j) = 0"
  using idx_less [of i h j w] by (simp add: pix_def NewMatWithSize_def)

lemma shaped_NewMat [simp]: "shaped h w (NewMatWithSize h w)"
  by (simp add: shaped_def NewMatWithSize_def)

lemma in_int_upt: "x \<in> set (map int [0..<n]) \<longleftrightarrow> (\<exists>i < n. x = int i)"
  by auto

lemma foldE_id: "(\<And>x. x \<in> set xs \<Longrightarrow> f s x = Inr s) \<Longrightarrow> foldE f s xs = Inr s"
  by (induction xs) simp_all

subsection \<open>The coarse pass returns\<close>

lemma castVote_shaped:
  assumes "shaped (rows small) (cols small) votes"
  shows "\<exists>v'. castVote small row col votes cp = Inr v' \<and> shaped (rows small) (cols small) v'"
proof (cases "row + Y cp \<ge> int (rows small) \<or> row + Y cp < 0 \<or> col + X cp \<ge> int (cols small) \<or> col + X cp < 0")
  case True
  then show ?thesis using assms by (simp add: castVote_def Let_def)
next
  case False
  then have "inRange votes (row + Y cp) (col + X cp)"
    using assms by (simp add: inRange_def shaped_def)
  then show ?thesis using False assms
    by (simp add: castVote_def Let_def getAt_def setAt_def shaped_def)
qed

lemma votePixel_shaped:
  assumes "shaped (rows small) (cols small) votes" "i < rows small" "j < cols small"
  shows "\<exists>v'. votePixel small pts (int i) votes (int j) = Inr v' \<and> shaped (rows small) (cols small) v'"
proof (cases "pix small (i, j) = 0")
  case True
  then show ?thesis using assms by (simp add: votePixel_def getAt_def)
next
  case False
  have "\<exists>v'. foldE (castVote small (int i) (int j)) votes pts = Inr v' \<and> shaped (rows small) (cols small) v'"
    by (rule foldE_total [where P = "shaped (rows small) (cols small)"]) (use assms castVote_shaped in auto)
  then show ?thesis using False assms by (simp add: votePixel_def getAt_def)
qed

lemma voteRow_shaped:
  assumes "shaped (rows small) (cols small) votes" "i < rows small"
  shows "\<exists>v'. voteRow small pts votes (int i) = Inr v' \<and> shaped (rows small) (cols small) v'"
  unfolding voteRow_def
  by (rule foldE_total [where P = "shaped (rows small) (cols small)"])
     (use assms votePixel_shaped in \<open>auto simp: in_int_upt\<close>)

lemma voteGrid_shaped:
  "\<exists>v'. voteGrid small pts = Inr v' \<and> shaped (rows small) (cols small) v'"
  unfolding voteGrid_def
  by (rule foldE_total [where P = "shaped (rows small) (cols small)"])
     (use voteRow_shaped in \<open>auto simp: in_int_upt\<close>)

lemma scanPixel_total:
  assumes "shaped (rows small) (cols small) votes" "i < rows small" "j < cols small"
  shows "\<exists>b'. scanPixel votes r (int i) b (int j) = Inr b'"
  using assms by (cases b) (simp add: getAt_def shaped_def)

lemma scanRow_total:
  assumes "shaped (rows small) (cols small) votes" "i < rows small"
  shows "\<exists>b'. scanRow small votes r b (int i) = Inr b'"
proof -
  have "\<exists>b'. foldE (scanPixel votes r (int i)) b (map int [0..<cols small]) = Inr b' \<and> True"
    by (rule foldE_total [where P = "\<lambda>_. True"]) (use assms scanPixel_total in \<open>auto simp: in_int_upt\<close>)
  then show ?thesis by (simp add: scanRow_def)
qed

lemma scanGrid_total:
  assumes "shaped (rows small) (cols small) votes"
  shows "\<exists>b'. scanGrid small votes r b = Inr b'"
proof -
  have "\<exists>b'. foldE (scanRow small votes r) b (map int [0..<rows small]) = Inr b' \<and> True"
    by (rule foldE_total [where P = "\<lambda>_. True"]) (use assms scanRow_total in \<open>auto simp: in_int_upt\<close>)
  then show ?thesis by (simp add: scanGrid_def)
qed

lemma coarseRadius_total: "\<exists>b'. coarseRadius ev small b r = Inr b'"
proof (cases "circlePoints ev r")
  case None
  then show ?thesis by (simp add: coarseRadius_def)
next
  case (Some pts)
  obtain votes where "voteGrid small pts = Inr votes" "shaped (rows small) (cols small) votes"
    using voteGrid_shaped by blast
  then show ?thesis using Some scanGrid_total [of small votes r b] by (simp add: coarseRadius_def)
qed

lemma coarsePass_total: "\<exists>b. coarsePass ev small = Inr b"
proof -
  have "\<exists>b'. foldE (coarseRadius ev small) (noCircle, 0) (rangeOrder ev) = Inr b' \<and> True"
    by (rule foldE_total [where P = "\<lambda>_. True"]) (use coarseRadius_total in auto)
  then show ?thesis by (simp add: coarsePass_def)
qed

lemma refine_mult_one: "refine ev im 1 winner = Inr (scaleUp ev winner 1, scaleUp ev winner 1)"
  by (simp add: refine_def Let_def)

subsection \<open>An edge image with no foreground pixel\<close>

lemma allZero_pix: "allZero m \<Longrightarrow> wf m \<Longrightarrow> i < rows m \<Longrightarrow> j < cols m \<Longrightarrow> pix m (i, j) = 0"
  using idx_less [of i "rows m" j "cols m"] by (simp add: allZero_def wf_def pix_def)

lemma votePixel_zero:
  assumes "allZero small" "wf small" "i < rows small" "j < cols small"
  shows "votePixel small pts (int i) votes (int j) = Inr votes"
  using assms allZero_pix [OF assms] by (simp add: votePixel_def getAt_def)

lemma voteGrid_zero:
  assumes "allZero small" "wf small"
  shows "voteGrid small pts = Inr (NewMatWithSize (rows small) (cols small))"
proof -
  have row: "\<And>votes i. i < rows small \<Longrightarrow> voteRow small pts votes (int i) = Inr votes"
    unfolding voteRow_def
    by (rule foldE_id) (use assms votePixel_zero in \<open>auto simp: in_int_upt\<close>)
  show ?thesis unfolding voteGrid_def
    by (rule foldE_id) (use row in \<open>auto simp: in_int_upt\<close>)
qed

lemma scanGrid_zero:
  "scanGrid small (NewMatWithSize (rows small) (cols small)) r (c, 0) = Inr (c, 0)"
proof -
  have px: "\<And>i j. i < rows small \<Longrightarrow> j < cols small \<Longrightarrow>
      scanPixel (NewMatWithSize (rows small) (cols small)) r (int i) (c, 0) (int j) = Inr (c, 0)"
    by (simp add: getAt_def)
  have row: "\<And>i. i < rows small \<Longrightarrow>
      scanRow small (NewMatWithSize (rows small) (cols small)) r (c, 0) (int i) = Inr (c, 0)"
    unfolding scanRow_def
    by (rule foldE_id) (use px in \<open>auto simp: in_int_upt\<close>)
  show ?thesis unfolding scanGrid_def
    by (rule foldE_id) (use row in \<open>auto simp: in_int_upt\<close>)
qed

lemma coarsePass_zero:
  assumes "allZero small" "wf small"
  shows "coarsePass ev small = Inr (noCircle, 0)"
  unfolding coarsePass_def
proof (rule foldE_id)
  fix r
  show "coarseRadius ev small (noCircle, 0) r = Inr (noCircle, 0)"
    by (cases "circlePoints ev r") (simp_all add: coarseRadius_def voteGrid_zero [OF assms] scanGrid_zero)
qed

lemma scaleUp_ideal_noCircle [simp]: "scaleUp ideal noCircle mult = noCircle"
  by (simp add: scaleUp_def noCircle_def ideal_def)

lemma finePass_ideal_origin:
  assumes "0 < u"
  shows "finePass ideal im noCircle u = Inl OutOfRange"
proof (rule finePass_outside [where r = "- u" and row = "- u" and col = "- u" and cp = "\<lparr> X = - u, Y = 0 \<rparr>"])
  have "calcCirclePoints ideal (- u) = \<lparr> X = - u, Y = 0 \<rparr> # tl (calcCirclePoints ideal (- u))"
    using assms by (intro calcCirclePoints_ideal_first(1)) simp
  then show "\<lparr> X = - u, Y = 0 \<rparr> \<in> set (calcCirclePoints ideal (- u))"
    by (metis list.set_intros(1))
qed (use assms in \<open>simp_all add: noCircle_def inRange_def\<close>)

lemma allZero_nearest:
  assumes "allZero im" "wf im" "0 < rows im" "0 < cols im"
  shows "allZero (build h w (nearest im h w))"
proof -
  have "nearest im h w i j = 0" for i j
  proof -
    have "min (rows im - 1) (i * rows im div h) < rows im" "min (cols im - 1) (j * cols im div w) < cols im"
      using assms(3,4) by auto
    then show ?thesis using allZero_pix [OF assms(1,2)] by (simp add: nearest_def pix_def)
  qed
  then show ?thesis by (simp add: allZero_def build_def)
qed

lemma refine_ideal_origin:
  assumes "1 < mult"
  shows "refine ideal im mult noCircle = Inl OutOfRange"
proof -
  have "0 < \<lceil>mult / 2\<rceil>" using assms by simp
  then show ?thesis using assms finePass_ideal_origin [of "\<lceil>mult / 2\<rceil>" im]
    by (simp add: refine_def Let_def)
qed

lemma findBestCircle_zero_large:
  assumes "allZero im" "wf im" "60 < rows im"
  shows "\<exists>e. findBestCircle ideal im = Inl e"
proof -
  let ?w = "cvRound (60 / real (rows im) * real (cols im))"
  show ?thesis
  proof (cases "?w \<le> 0")
    case True
    then show ?thesis using shrink_large [OF assms(3), of ideal]
      by (simp add: findBestCircle_def Let_def)
  next
    case False
    let ?small = "build 60 (nat ?w) (resample ideal im 60 (nat ?w))"
    have sh: "shrink ideal im 60 = Inr (?small, real (rows im) / 60)"
      using False shrink_large [OF assms(3), of ideal] by (simp add: Let_def)
    have "cols im \<noteq> 0"
    proof
      assume "cols im = 0"
      then have "?w = 0" using cvRound_of_int [of 0] by simp
      then show False using False by simp
    qed
    then have z: "allZero ?small"
      using allZero_nearest [OF assms(1,2)] assms(3) by (simp add: ideal_def)
    have "coarsePass ideal ?small = Inr (noCircle, 0)"
      using z by (intro coarsePass_zero) simp_all
    moreover have "refine ideal im (real (rows im) / 60) noCircle = Inl OutOfRange"
      using assms(3) by (intro refine_ideal_origin) simp
    ultimately show ?thesis using sh by (simp add: findBestCircle_def)
  qed
qed

lemma findBestCircle_zero_small:
  assumes "allZero im" "wf im" "rows im \<le> 60"
  shows "findBestCircle ideal im = Inr (noCircle, noCircle)"
  using assms by (simp add: findBestCircle_def shrink_small coarsePass_zero refine_mult_one)

lemma allZero_NewMat: "allZero (NewMatWithSize h w)"
  by (simp add: allZero_def NewMatWithSize_def)

lemma wf_NewMat: "wf (NewMatWithSize h w)"
  by (simp add: wf_def NewMatWithSize_def)

lemma first_in_calcCirclePoints:
  "r \<noteq> 0 \<Longrightarrow> \<lparr> X = r, Y = 0 \<rparr> \<in> set (calcCirclePoints ideal r)"
  using calcCirclePoints_ideal_first(1) [of r] by (metis list.set_intros(1))


subsection \<open>The fine pass keeps the best candidate\<close>












subsection \<open>\<open>fillHoles\<close>, pixel by pixel\<close>

lemma idx_inj:
  assumes "i * w + j = i' * w + j'" "j < w" "j' < (w::nat)"
  shows "i = i' \<and> j = j'"
proof -
  have "(i * w + j) div w = i" "(i' * w + j') div w = i'" using assms(2,3) by simp_all
  then have "i = i'" using assms(1) by simp
  then show ?thesis using assms(1) by simp
qed

lemma mat_eqI:
  fixes a b :: "'a Mat"
  assumes "wf a" "wf b" "rows a = rows b" "cols a = cols b"
    and px: "\<And>i j. i < rows a \<Longrightarrow> j < cols a \<Longrightarrow> pix a (i, j) = pix b (i, j)"
  shows "a = b"
proof -
  have len: "length (elems a) = length (elems b)" using assms(1-4) by (simp add: wf_def)
  have "elems a = elems b"
  proof (rule nth_equalityI [OF len])
    fix k
    assume "k < length (elems a)"
    then have k: "k < rows a * cols a" using assms(1) by (simp add: wf_def)
    then have c: "0 < cols a" by (cases "cols a") simp_all
    have "k div cols a < rows a" using k by (simp add: less_mult_imp_div_less)
    moreover have "k mod cols a < cols a" using c by simp
    ultimately have "pix a (k div cols a, k mod cols a) = pix b (k div cols a, k mod cols a)"
      by (rule px)
    then show "elems a ! k = elems b ! k" using assms(4) by (simp add: pix_def)
  qed
  then show ?thesis using assms(3,4) by simp
qed

lemma painted_pix:
  "painted src S m \<Longrightarrow> i < rows src \<Longrightarrow> j < cols src
   \<Longrightarrow> pix m (i, j) = (if (i, j) \<in> S then 255 else pix src (i, j))"
  unfolding painted_def by blast

lemma painted_shape: "painted src S m \<Longrightarrow> wf m \<and> rows m = rows src \<and> cols m = cols src"
  unfolding painted_def by blast

lemma setAt_painted:
  assumes "painted src S m" "i < rows src" "j < cols src"
  shows "\<exists>m'. setAt m (int i) (int j) 255 = Inr m' \<and> painted src (insert (i, j) S) m'"
proof -
  let ?m' = "m\<lparr> elems := (elems m)[i * cols m + j := 255] \<rparr>"
  have d: "wf m" "rows m = rows src" "cols m = cols src" using painted_shape [OF assms(1)] by simp_all
  have len: "length (elems m) = rows src * cols src" using d by (simp add: wf_def)
  have s: "setAt m (int i) (int j) 255 = Inr ?m'" using assms(2,3) d(2,3) by (simp add: setAt_def)
  have px: "pix ?m' (i', j') = (if (i', j') \<in> insert (i, j) S then 255 else pix src (i', j'))"
    if "i' < rows src" "j' < cols src" for i' j'
  proof (cases "i' = i \<and> j' = j")
    case True
    have "pix ?m' (i, j) = 255" using idx_less [OF assms(2,3)] len d(3) by (simp add: pix_def)
    then show ?thesis using True by simp
  next
    case False
    then have "i' * cols src + j' \<noteq> i * cols src + j"
      using idx_inj [of i' "cols src" j' i j] that(2) assms(3) by blast
    then have "pix ?m' (i', j') = pix m (i', j')" using d(3) by (simp add: pix_def)
    also have "\<dots> = (if (i', j') \<in> S then 255 else pix src (i', j'))"
      using assms(1) that by (rule painted_pix)
    finally show ?thesis using False by auto
  qed
  have "painted src (insert (i, j) S) ?m'"
    unfolding painted_def
  proof (intro conjI allI impI)
    show "wf ?m'" using len d(2,3) by (simp add: wf_def)
    show "rows ?m' = rows src" using d(2) by simp
    show "cols ?m' = cols src" using d(3) by simp
  next
    fix i' j'
    assume "i' < rows src" "j' < cols src"
    then show "pix ?m' (i', j') = (if (i', j') \<in> insert (i, j) S then 255 else pix src (i', j'))"
      by (rule px)
  qed
  then show ?thesis using s by blast
qed

lemma borderRow_painted:
  assumes "painted src S m" "n < rows src" "0 < cols src"
  shows "\<exists>m'. borderRow m n = Inr m' \<and> painted src (S \<union> {(n, 0), (n, cols src - 1)}) m'"
proof -
  obtain m1 where m1: "setAt m (int n) (int 0) 255 = Inr m1" "painted src (insert (n, 0) S) m1"
    using setAt_painted [OF assms(1,2,3)] by blast
  have c: "cols m1 = cols src" using painted_shape [OF m1(2)] by simp
  have lt: "cols src - 1 < cols src" using assms(3) by simp
  obtain m2 where m2: "setAt m1 (int n) (int (cols src - 1)) 255 = Inr m2"
    "painted src (insert (n, cols src - 1) (insert (n, 0) S)) m2"
    using setAt_painted [OF m1(2) assms(2) lt] by blast
  have e0: "setAt m (int n) 0 255 = Inr m1" using m1(1) by simp
  have e1: "int (cols m1) - 1 = int (cols src - 1)" using c assms(3) by (simp add: of_nat_diff)
  have "borderRow m n = Inr m2" by (simp only: borderRow_def e0 bindE_Inr e1 m2(1))
  moreover have "insert (n, cols src - 1) (insert (n, 0) S) = S \<union> {(n, 0), (n, cols src - 1)}"
    by blast
  ultimately show ?thesis using m2(2) by metis
qed

lemma borderCol_painted:
  assumes "painted src S m" "n < cols src" "0 < rows src"
  shows "\<exists>m'. borderCol m n = Inr m' \<and> painted src (S \<union> {(0, n), (rows src - 1, n)}) m'"
proof -
  obtain m1 where m1: "setAt m (int 0) (int n) 255 = Inr m1" "painted src (insert (0, n) S) m1"
    using setAt_painted [OF assms(1) assms(3) assms(2)] by blast
  have c: "rows m1 = rows src" using painted_shape [OF m1(2)] by simp
  have lt: "rows src - 1 < rows src" using assms(3) by simp
  obtain m2 where m2: "setAt m1 (int (rows src - 1)) (int n) 255 = Inr m2"
    "painted src (insert (rows src - 1, n) (insert (0, n) S)) m2"
    using setAt_painted [OF m1(2) lt assms(2)] by blast
  have e0: "setAt m 0 (int n) 255 = Inr m1" using m1(1) by simp
  have e1: "int (rows m1) - 1 = int (rows src - 1)" using c assms(3) by (simp add: of_nat_diff)
  have "borderCol m n = Inr m2" by (simp only: borderCol_def e0 bindE_Inr e1 m2(1))
  moreover have "insert (rows src - 1, n) (insert (0, n) S) = S \<union> {(0, n), (rows src - 1, n)}"
    by blast
  ultimately show ?thesis using m2(2) by metis
qed

lemma rowLoop_painted:
  assumes "painted src S m" "\<forall>n \<in> set ns. n < rows src" "0 < cols src"
  shows "\<exists>m'. foldE borderRow m ns = Inr m'
     \<and> painted src (S \<union> (\<Union>n \<in> set ns. {(n, 0), (n, cols src - 1)})) m'"
  using assms(1,2)
proof (induction ns arbitrary: m S)
  case Nil
  then show ?case by simp
next
  case (Cons n ns)
  have n: "n < rows src" and ns: "\<forall>n \<in> set ns. n < rows src" using Cons.prems(2) by simp_all
  obtain m1 where m1: "borderRow m n = Inr m1" "painted src (S \<union> {(n, 0), (n, cols src - 1)}) m1"
    using borderRow_painted [OF Cons.prems(1) n assms(3)] by blast
  obtain m2 where m2: "foldE borderRow m1 ns = Inr m2"
    "painted src ((S \<union> {(n, 0), (n, cols src - 1)}) \<union> (\<Union>n \<in> set ns. {(n, 0), (n, cols src - 1)})) m2"
    using Cons.IH [OF m1(2) ns] by blast
  have "(S \<union> {(n, 0), (n, cols src - 1)}) \<union> (\<Union>n \<in> set ns. {(n, 0), (n, cols src - 1)})
      = S \<union> (\<Union>n \<in> set (n # ns). {(n, 0), (n, cols src - 1)})" by auto
  then show ?case using m1(1) m2 by simp
qed

lemma colLoop_painted:
  assumes "painted src S m" "\<forall>n \<in> set ns. n < cols src" "0 < rows src"
  shows "\<exists>m'. foldE borderCol m ns = Inr m'
     \<and> painted src (S \<union> (\<Union>n \<in> set ns. {(0, n), (rows src - 1, n)})) m'"
  using assms(1,2)
proof (induction ns arbitrary: m S)
  case Nil
  then show ?case by simp
next
  case (Cons n ns)
  have n: "n < cols src" and ns: "\<forall>n \<in> set ns. n < cols src" using Cons.prems(2) by simp_all
  obtain m1 where m1: "borderCol m n = Inr m1" "painted src (S \<union> {(0, n), (rows src - 1, n)}) m1"
    using borderCol_painted [OF Cons.prems(1) n assms(3)] by blast
  obtain m2 where m2: "foldE borderCol m1 ns = Inr m2"
    "painted src ((S \<union> {(0, n), (rows src - 1, n)}) \<union> (\<Union>n \<in> set ns. {(0, n), (rows src - 1, n)})) m2"
    using Cons.IH [OF m1(2) ns] by blast
  have "(S \<union> {(0, n), (rows src - 1, n)}) \<union> (\<Union>n \<in> set ns. {(0, n), (rows src - 1, n)})
      = S \<union> (\<Union>n \<in> set (n # ns). {(0, n), (rows src - 1, n)})" by auto
  then show ?case using m1(1) m2 by simp
qed

lemma border_sets:
  assumes "i < h" "j < w"
  shows "(i, j) \<in> (\<Union>n \<in> set [0..<h]. {(n, 0), (n, w - 1)}) \<union> (\<Union>n \<in> set [1..<w - 1]. {(0, n), (h - 1, n)})
    \<longleftrightarrow> i = 0 \<or> Suc i = h \<or> j = 0 \<or> Suc j = w"
proof -
  have a: "(i, j) \<in> (\<Union>n \<in> set [0..<h]. {(n, 0), (n, w - 1)}) \<longleftrightarrow> j = 0 \<or> j = w - 1"
    using assms(1) by auto
  have b: "(i, j) \<in> (\<Union>n \<in> set [1..<w - 1]. {(0, n), (h - 1, n)})
      \<longleftrightarrow> 1 \<le> j \<and> j < w - 1 \<and> (i = 0 \<or> i = h - 1)"
    by auto
  have "(j = 0 \<or> j = w - 1) \<or> (1 \<le> j \<and> j < w - 1 \<and> (i = 0 \<or> i = h - 1))
      \<longleftrightarrow> i = 0 \<or> Suc i = h \<or> j = 0 \<or> Suc j = w"
    using assms by arith
  then show ?thesis unfolding Un_iff a b .
qed

lemma whiteBorder_bordered:
  assumes "wf src" "0 < rows src" "0 < cols src"
  shows "whiteBorder src = Inr (bordered src)"
proof -
  let ?A = "\<Union>n \<in> set [0..<rows src]. {(n, 0), (n, cols src - 1)}"
  let ?B = "\<Union>n \<in> set [1..<cols src - 1]. {(0, n), (rows src - 1, n)}"
  have p0: "painted src {} src" using assms(1) by (simp add: painted_def)
  have r: "\<forall>n \<in> set [0..<rows src]. n < rows src" by simp
  obtain m1 where m1: "foldE borderRow src [0..<rows src] = Inr m1" "painted src ({} \<union> ?A) m1"
    using rowLoop_painted [OF p0 r assms(3)] by blast
  have c: "\<forall>n \<in> set [1..<cols src - 1]. n < cols src" by auto
  obtain m2 where m2: "foldE borderCol m1 [1..<cols src - 1] = Inr m2" "painted src (({} \<union> ?A) \<union> ?B) m2"
    using colLoop_painted [OF m1(2) c assms(2)] by blast
  have c1: "cols m1 = cols src" using m1(2) by (simp add: painted_def)
  have w: "whiteBorder src = Inr m2" using m1(1) m2(1) c1 by (simp add: whiteBorder_def)
  have d: "wf m2" "rows m2 = rows src" "cols m2 = cols src" using m2(2) by (simp_all add: painted_def)
  have "m2 = bordered src"
  proof (rule mat_eqI)
    fix i j
    assume ij: "i < rows m2" "j < cols m2"
    then have ij': "i < rows src" "j < cols src" using d by simp_all
    have "(i, j) \<in> ({} \<union> ?A) \<union> ?B \<longleftrightarrow> onBorder src (i, j)"
      using border_sets [OF ij'] by (simp add: onBorder_def)
    moreover have "pix m2 (i, j) = (if (i, j) \<in> ({} \<union> ?A) \<union> ?B then 255 else pix src (i, j))"
      using m2(2) ij' unfolding painted_def by blast
    ultimately show "pix m2 (i, j) = pix (bordered src) (i, j)"
      using ij' by (simp add: bordered_def)
  qed (use d in \<open>simp_all add: bordered_def\<close>)
  then show ?thesis using w by simp
qed

lemma bordered_sel [simp]: "rows (bordered src) = rows src" "cols (bordered src) = cols src"
  by (simp_all add: bordered_def)

lemma wf_bordered [simp]: "wf (bordered src)"
  by (simp add: bordered_def)

lemma pix_bordered:
  "i < rows src \<Longrightarrow> j < cols src \<Longrightarrow>
   pix (bordered src) (i, j) = (if onBorder src (i, j) then 255 else pix src (i, j))"
  by (simp add: bordered_def)

lemma build_cong:
  "(\<And>i j. i < h \<Longrightarrow> j < w \<Longrightarrow> f i j = g i j) \<Longrightarrow> build h w f = build h w g"
  by (rule mat_eqI) simp_all

lemma uchar_255: "(255 :: uchar) = - 1"
  by simp

lemma uchar_mask:
  fixes x :: uchar
  shows "x AND NOT 0 = x" "x AND NOT 255 = 0" "x AND NOT x = 0"
  unfolding uchar_255 by simp_all

lemma fillHoles_eq:
  assumes "wf src" "0 < rows src" "0 < cols src"
  shows "fillHoles src
    = Inr (build (rows src) (cols src) (\<lambda>i j. if (i, j) \<in> kept src then pix src (i, j) else 0))"
proof -
  let ?h = "rows src" and ?w = "cols src"
  let ?g = "\<lambda>i j. if (i, j) \<in> kept src then 0 else pix (bordered src) (i, j)"
  let ?flooded = "build ?h ?w ?g"
  let ?res = "src\<lparr> elems := map2 (\<lambda>v w. v AND w) (elems src) (elems (BitwiseNot ?flooded)) \<rparr>"
  have ff: "FloodFill (bordered src) \<lparr> X = 0, Y = 0 \<rparr> 0 = Inr ?flooded"
    using assms(2,3) by (simp add: FloodFill_def inRange_def kept_def)
  have ba: "BitwiseAnd src (BitwiseNot ?flooded) = Inr ?res"
    by (simp add: BitwiseAnd_def BitwiseNot_def)
  have fh: "fillHoles src = Inr ?res"
    by (simp add: fillHoles_def whiteBorder_bordered [OF assms] ff ba)
  have len: "length (elems src) = ?h * ?w" using assms(1) by (simp add: wf_def)
  have lenf: "length (elems ?flooded) = ?h * ?w" by (simp add: build_def)
  have "?res = build ?h ?w (\<lambda>i j. if (i, j) \<in> kept src then pix src (i, j) else 0)"
  proof (rule mat_eqI)
    show "wf ?res" using len lenf by (simp add: wf_def BitwiseNot_def)
  next
    fix i j
    assume "i < rows ?res" "j < cols ?res"
    then have ij: "i < ?h" "j < ?w" by simp_all
    have k: "i * ?w + j < ?h * ?w" using idx_less [OF ij] .
    have "pix ?res (i, j) = pix src (i, j) AND NOT (pix ?flooded (i, j))"
      using k len lenf by (simp add: pix_def BitwiseNot_def)
    also have "\<dots> = pix src (i, j) AND NOT (?g i j)" using ij by simp
    also have "\<dots> = (if (i, j) \<in> kept src then pix src (i, j) else 0)"
      using ij uchar_mask [of "pix src (i, j)"] by (simp only: pix_bordered if_distrib split: if_splits) simp
    finally show "pix ?res (i, j)
        = pix (build ?h ?w (\<lambda>i j. if (i, j) \<in> kept src then pix src (i, j) else 0)) (i, j)"
      using ij by simp
  qed simp_all
  then show ?thesis using fh by simp
qed

lemma fillHoles_dims:
  assumes "fillHoles src = Inr out"
  shows "rows out = rows src \<and> cols out = cols src"
proof -
  from assms obtain m where "BitwiseAnd src m = Inr out"
    by (auto simp: fillHoles_def bindE_eq_Inr)
  then show ?thesis by (auto simp: BitwiseAnd_def split: if_splits)
qed

lemma grow_extensive: "S \<subseteq> grow m v S"
  by (auto simp: grow_def)

lemma funpow_grow_chain: "k \<le> n \<Longrightarrow> (grow m v ^^ k) S \<subseteq> (grow m v ^^ n) S"
proof (induction n)
  case 0
  then show ?case by simp
next
  case (Suc n)
  show ?case
  proof (cases "k = Suc n")
    case True
    then show ?thesis by simp
  next
    case False
    then have "(grow m v ^^ k) S \<subseteq> (grow m v ^^ n) S" using Suc by simp
    also have "\<dots> \<subseteq> (grow m v ^^ Suc n) S" using grow_extensive [of "(grow m v ^^ n) S" m v] by simp
    finally show ?thesis .
  qed
qed

lemma seed_white:
  assumes "0 < rows src" "0 < cols src"
  shows "pix (bordered src) (0, 0) = 255"
  using assms by (simp add: pix_bordered onBorder_def)

lemma kept_unfold:
  assumes "0 < rows src" "0 < cols src"
  shows "kept src = (grow (bordered src) 255 ^^ (rows src * cols src)) {(0, 0)}"
  using seed_white [OF assms] by (simp add: kept_def floodRegion_def)

lemma in_positions: "(i, j) \<in> set (positions m) \<longleftrightarrow> i < rows m \<and> j < cols m"
  by (simp add: positions_def)

lemma kept_preserved:
  assumes "wf src" "0 < rows src" "0 < cols src"
    and out: "out = build (rows src) (cols src) (\<lambda>i j. if (i, j) \<in> kept src then pix src (i, j) else 0)"
  shows "kept src \<subseteq> kept out"
proof -
  let ?n = "rows src * cols src"
  let ?B = "bordered src" and ?B' = "bordered out"
  have d: "rows out = rows src" "cols out = cols src" using out by simp_all
  have step: "(grow ?B 255 ^^ k) {(0, 0)} \<subseteq> (grow ?B' 255 ^^ k) {(0, 0)}" if "k \<le> ?n" for k
    using that
  proof (induction k)
    case 0
    then show ?case by simp
  next
    case (Suc k)
    have ih: "(grow ?B 255 ^^ k) {(0, 0)} \<subseteq> (grow ?B' 255 ^^ k) {(0, 0)}" using Suc by simp
    show ?case
    proof
      fix x
      assume x: "x \<in> (grow ?B 255 ^^ Suc k) {(0, 0)}"
      then have xk: "x \<in> kept src"
        using funpow_grow_chain [OF Suc.prems, of ?B 255 "{(0, 0)}"] kept_unfold [OF assms(2,3)] by blast
      from x have "x \<in> grow ?B 255 ((grow ?B 255 ^^ k) {(0, 0)})" by simp
      then consider "x \<in> (grow ?B 255 ^^ k) {(0, 0)}"
        | "x \<in> set (positions ?B)" "pix ?B x = 255" "\<exists>p \<in> (grow ?B 255 ^^ k) {(0, 0)}. adjacent p x"
        by (auto simp: grow_def)
      then have "x \<in> grow ?B' 255 ((grow ?B' 255 ^^ k) {(0, 0)})"
      proof cases
        case 1
        then show ?thesis using ih grow_extensive by blast
      next
        case 2
        obtain i j where ij: "x = (i, j)" by (cases x)
        have r: "i < rows src" "j < cols src" using 2(1) ij by (simp_all add: in_positions)
        have white: "pix ?B' x = 255"
        proof (cases "onBorder src (i, j)")
          case True
          then have "onBorder out (i, j)" using d by (simp add: onBorder_def)
          then show ?thesis using r d ij by (simp add: pix_bordered)
        next
          case False
          then have nb: "\<not> onBorder out (i, j)" using d by (simp add: onBorder_def)
          have "pix src (i, j) = 255" using 2(2) False r ij by (simp add: pix_bordered)
          then have "pix out (i, j) = 255" using xk r ij out by simp
          then show ?thesis using nb r d ij by (simp add: pix_bordered)
        qed
        have "x \<in> set (positions ?B')" using r d ij by (simp add: in_positions)
        moreover have "\<exists>p \<in> (grow ?B' 255 ^^ k) {(0, 0)}. adjacent p x" using 2(3) ih by blast
        ultimately show ?thesis using white by (simp add: grow_def)
      qed
      then show "x \<in> (grow ?B' 255 ^^ Suc k) {(0, 0)}" by simp
    qed
  qed
  have "kept out = (grow ?B' 255 ^^ ?n) {(0, 0)}"
    using kept_unfold [of out] assms(2,3) d by simp
  then show ?thesis using step [of ?n] kept_unfold [OF assms(2,3)] by simp
qed

subsection \<open>Samples of the reference platform near the axes\<close>

lemma goInt_minus: "goInt (- v) = - goInt v"
  by (auto simp: goInt_def ceiling_minus floor_minus)

lemma goInt_eq_0_iff: "goInt v = 0 \<longleftrightarrow> \<bar>v\<bar> < 1"
proof (cases "0 \<le> v")
  case True
  then show ?thesis by (simp add: goInt_def floor_eq_iff)
next
  case False
  then show ?thesis by (simp add: goInt_def ceiling_eq_iff)
qed

lemma goInt_between:
  assumes "of_int n \<le> v" "v < of_int n + 1" "0 \<le> n"
  shows "goInt v = n"
proof -
  have "0 \<le> v" using assms(1,3) by (meson of_int_0_le_iff order_trans)
  then show ?thesis using assms(1,2) by (simp add: goInt_def floor_eq_iff)
qed

lemma goInt_pos_bounds:
  assumes "goInt v = n" "0 < n"
  shows "of_int n \<le> v \<and> v < of_int n + 1"
proof (cases "0 \<le> v")
  case True
  then show ?thesis using assms(1) by (auto simp: goInt_def floor_eq_iff)
next
  case False
  then have "\<lceil>v\<rceil> \<le> 0" by (simp add: ceiling_le_iff)
  moreover have "\<lceil>v\<rceil> = n" using False assms(1) by (simp add: goInt_def)
  ultimately show ?thesis using assms(2) by linarith
qed

lemma goInt_abs_ge:
  assumes "of_int n < \<bar>v\<bar>" "0 \<le> n"
  shows "n \<le> \<bar>goInt v\<bar>"
proof (cases "0 \<le> v")
  case True
  then have "n \<le> \<lfloor>v\<rfloor>" using assms(1) by (simp add: le_floor_iff)
  then show ?thesis using True by (simp add: goInt_def)
next
  case False
  then have "v < - of_int n" using assms(1) by simp
  then have "\<lceil>v\<rceil> \<le> - n" by (simp add: ceiling_le_iff)
  then show ?thesis using False by (simp add: goInt_def)
qed

lemma ideal_X: "X (samplePoint ideal r i) = goInt (of_int r * cos (deg i))"
  by (simp add: samplePoint_def ideal_def deg_def)

lemma ideal_Y: "Y (samplePoint ideal r i) = goInt (of_int r * sin (deg i))"
  by (simp add: samplePoint_def ideal_def deg_def)

lemma ideal_sample_eq:
  "samplePoint ideal r i = \<lparr> X = x, Y = y \<rparr>
   \<longleftrightarrow> goInt (of_int r * cos (deg i)) = x \<and> goInt (of_int r * sin (deg i)) = y"
  by (simp add: samplePoint_def ideal_def deg_def)

lemma near_axis:
  assumes "\<bar>of_int r * sin t\<bar> < 1" "1 \<le> r"
  shows "of_int (r - 1) < \<bar>of_int r * cos (t::real)\<bar>"
proof -
  let ?s = "of_int r * sin t" and ?c = "of_int r * cos t"
  have "?s\<^sup>2 + ?c\<^sup>2 = (of_int r)\<^sup>2 * ((sin t)\<^sup>2 + (cos t)\<^sup>2)"
    by (simp only: power_mult_distrib distrib_left)
  then have sum: "?s\<^sup>2 + ?c\<^sup>2 = (of_int r)\<^sup>2"
    by (simp only: sin_cos_squared_add mult.right_neutral)
  have "?s\<^sup>2 < 1" using assms(1) by (simp add: abs_square_less_1)
  then have "(of_int r :: real)\<^sup>2 - 1 < ?c\<^sup>2" using sum by linarith
  moreover have "(of_int (r - 1) :: real)\<^sup>2 \<le> (of_int r)\<^sup>2 - 1"
  proof -
    have "(of_int (r - 1) :: real)\<^sup>2 = (of_int r)\<^sup>2 - 2 * of_int r + 1"
      by (simp add: power2_eq_square algebra_simps)
    moreover have "(1::real) \<le> of_int r" using assms(2) by simp
    ultimately show ?thesis by linarith
  qed
  ultimately have "(of_int (r - 1) :: real)\<^sup>2 < \<bar>?c\<bar>\<^sup>2" by simp
  then show ?thesis by (rule power2_less_imp_less) simp
qed

lemma cos_deg_lt_1:
  assumes "0 < i" "i < 360"
  shows "cos (deg i) < 1"
proof -
  have "cos (deg i) \<noteq> 1"
  proof
    assume "cos (deg i) = 1"
    then obtain n :: int where n: "deg i = of_int n * 2 * pi"
      using cos_one_2pi_int by blast
    then have "real i * pi = (360 * of_int n) * pi" by (simp add: deg_def)
    then have "real i = 360 * of_int n" by simp
    then have "(of_int (int i) :: real) = of_int (360 * n)" by simp
    then have "int i = 360 * n" by (simp only: of_int_eq_iff)
    then have "0 < 360 * n" "360 * n < 360" using assms by linarith+
    then have "0 < n" "n < 1" by linarith+
    then show False by linarith
  qed
  then show ?thesis using cos_le_one [of "deg i"] by linarith
qed

lemma deg_bounds:
  "deg 0 = 0" "deg 90 = pi / 2" "deg 180 = pi" "deg 360 = 2 * pi"
  by (simp_all add: deg_def)

lemma deg_mono: "i \<le> j \<Longrightarrow> deg i \<le> deg j"
  by (simp add: deg_def divide_right_mono)

lemma deg_strict: "i < j \<Longrightarrow> deg i < deg j"
  by (simp add: deg_def divide_strict_right_mono)

lemma deg_360_minus: "i \<le> 360 \<Longrightarrow> deg (360 - i) = 2 * pi - deg i"
  by (simp add: deg_def of_nat_diff field_simps)

lemma on_axis_far:
  assumes "Y (samplePoint ideal r i) = 0" "1 \<le> r"
  shows "r - 1 \<le> \<bar>X (samplePoint ideal r i)\<bar>"
proof -
  have "\<bar>of_int r * sin (deg i)\<bar> < 1" using assms(1) by (simp add: ideal_Y goInt_eq_0_iff)
  then have "of_int (r - 1) < \<bar>of_int r * cos (deg i)\<bar>" using assms(2) by (rule near_axis)
  then have "r - 1 \<le> \<bar>goInt (of_int r * cos (deg i))\<bar>" using assms(2) by (intro goInt_abs_ge) simp_all
  then show ?thesis by (simp add: ideal_X)
qed

lemma first_only:
  assumes "i < 360" "1 \<le> r"
  shows "X (samplePoint ideal r i) = r \<longleftrightarrow> i = 0"
proof
  assume x: "X (samplePoint ideal r i) = r"
  show "i = 0"
  proof (rule ccontr)
    assume "i \<noteq> 0"
    then have "cos (deg i) < 1" using assms(1) by (intro cos_deg_lt_1) simp_all
    then have "of_int r * cos (deg i) < of_int r * 1" using assms(2) by (intro mult_strict_left_mono) simp_all
    moreover have "of_int r \<le> of_int r * cos (deg i)"
      using goInt_pos_bounds [of "of_int r * cos (deg i)" r] x assms(2) by (simp add: ideal_X)
    ultimately show False by simp
  qed
next
  assume "i = 0"
  then show "X (samplePoint ideal r i) = r" by (simp add: ideal_X deg_bounds)
qed

lemma second_iff:
  assumes "0 < i" "i < 360" "2 \<le> r"
  shows "samplePoint ideal r i = \<lparr> X = r - 1, Y = 0 \<rparr>
    \<longleftrightarrow> \<bar>of_int r * sin (deg i)\<bar> < 1 \<and> 0 < cos (deg i)"
proof
  assume p: "samplePoint ideal r i = \<lparr> X = r - 1, Y = 0 \<rparr>"
  then have x: "goInt (of_int r * cos (deg i)) = r - 1" and y: "goInt (of_int r * sin (deg i)) = 0"
    by (simp_all add: ideal_sample_eq)
  have "of_int (r - 1) \<le> of_int r * cos (deg i)"
    using goInt_pos_bounds [OF x] assms(3) by simp
  moreover have "(0::real) < of_int (r - 1)" using assms(3) by simp
  ultimately have "0 < of_int r * cos (deg i)" by linarith
  then have "0 < cos (deg i)" using assms(3) by (simp add: zero_less_mult_iff)
  then show "\<bar>of_int r * sin (deg i)\<bar> < 1 \<and> 0 < cos (deg i)" using y by (simp add: goInt_eq_0_iff)
next
  assume a: "\<bar>of_int r * sin (deg i)\<bar> < 1 \<and> 0 < cos (deg i)"
  have rpos: "(0::real) < of_int r" using assms(3) by simp
  have "of_int (r - 1) < \<bar>of_int r * cos (deg i)\<bar>" using a assms(3) by (intro near_axis) simp_all
  moreover have "0 < of_int r * cos (deg i)" using a rpos by simp
  ultimately have lo: "of_int (r - 1) \<le> of_int r * cos (deg i)" by simp
  have "cos (deg i) < 1" using assms(1,2) by (rule cos_deg_lt_1)
  then have "of_int r * cos (deg i) < of_int r * 1" using rpos by (intro mult_strict_left_mono)
  then have hi: "of_int r * cos (deg i) < of_int (r - 1) + 1" by simp
  have "goInt (of_int r * cos (deg i)) = r - 1" using lo hi assms(3) by (intro goInt_between) simp_all
  then show "samplePoint ideal r i = \<lparr> X = r - 1, Y = 0 \<rparr>"
    using a by (simp add: ideal_sample_eq goInt_eq_0_iff)
qed

lemma mirror:
  assumes "i \<le> 360"
  shows "samplePoint ideal r (360 - i) = \<lparr> X = x, Y = 0 \<rparr> \<longleftrightarrow> samplePoint ideal r i = \<lparr> X = x, Y = 0 \<rparr>"
proof -
  have "of_int r * sin (2 * pi - deg i) = - (of_int r * sin (deg i))" by simp
  then have "goInt (of_int r * sin (2 * pi - deg i)) = - goInt (of_int r * sin (deg i))"
    by (simp only: goInt_minus)
  then show ?thesis using assms by (simp add: ideal_sample_eq deg_360_minus)
qed

lemma second_down:
  assumes "0 < i" "i \<le> j" "j < 90" "2 \<le> r"
    and "samplePoint ideal r j = \<lparr> X = r - 1, Y = 0 \<rparr>"
  shows "samplePoint ideal r i = \<lparr> X = r - 1, Y = 0 \<rparr>"
proof -
  have j: "\<bar>of_int r * sin (deg j)\<bar> < 1" using assms second_iff [of j r] by simp
  have dj: "deg j < pi / 2" using deg_strict [OF assms(3)] by (simp add: deg_bounds)
  have di0: "0 < deg i" using deg_strict [OF assms(1)] by (simp add: deg_bounds)
  have dij: "deg i \<le> deg j" using assms(2) by (rule deg_mono)
  have "sin (deg i) \<le> sin (deg j)" using di0 dij dj by (intro sin_monotone_2pi_le) simp_all
  moreover have "0 \<le> sin (deg i)" using di0 dij dj by (intro sin_ge_zero) simp_all
  moreover have rpos: "(0::real) < of_int r" using assms(4) by simp
  ultimately have "0 \<le> of_int r * sin (deg i)" "of_int r * sin (deg i) \<le> of_int r * sin (deg j)"
    by (simp_all add: mult_left_mono)
  then have "\<bar>of_int r * sin (deg i)\<bar> < 1" using j by linarith
  moreover have "0 < cos (deg i)" using di0 dij dj by (intro cos_gt_zero_pi) simp_all
  ultimately show ?thesis using assms second_iff [of i r] by simp
qed

lemma second_not_left:
  assumes "90 \<le> i" "i \<le> 270" "2 \<le> r"
  shows "samplePoint ideal r i \<noteq> \<lparr> X = r - 1, Y = 0 \<rparr>"
proof -
  have "deg 90 \<le> deg i" "deg i \<le> deg 270" using assms(1,2) by (simp_all add: deg_mono)
  then have "pi / 2 \<le> deg i" "deg i \<le> 3 * pi / 2" by (simp_all add: deg_def)
  then have "0 \<le> cos (deg i - pi)" by (intro cos_ge_zero) simp_all
  then have "cos (deg i) \<le> 0" by simp
  then show ?thesis using assms second_iff [of i r] by simp
qed

lemma second_at_one:
  assumes "2 \<le> r" "r \<le> 14"
  shows "samplePoint ideal r 1 = \<lparr> X = r - 1, Y = 0 \<rparr>"
proof -
  have d: "0 < deg 1" "deg 1 < 4 / 180"
    using pi_less_4 by (simp_all add: deg_def)
  have s0: "0 \<le> sin (deg 1)" using d pi_ge_two by (intro sin_ge_zero) simp_all
  have "sin (deg 1) \<le> deg 1" using d by (intro sin_x_le_x) simp
  then have s1: "sin (deg 1) < 4 / 180" using d by linarith
  have "of_int r * sin (deg 1) \<le> 14 * sin (deg 1)" using assms(2) s0 by (intro mult_right_mono) simp_all
  then have "of_int r * sin (deg 1) < 1" using s1 by linarith
  moreover have "0 \<le> of_int r * sin (deg 1)" using assms(1) s0 by simp
  ultimately have "\<bar>of_int r * sin (deg 1)\<bar> < 1" by simp
  moreover have "0 < cos (deg 1)" using d pi_ge_two by (intro cos_gt_zero_pi) simp_all
  ultimately show ?thesis using assms(1) second_iff [of 1 r] by simp
qed

lemma second_runs:
  assumes "2 \<le> r" "r \<le> 14"
  obtains k where "1 \<le> k" "k \<le> 89"
    "\<And>i. 1 \<le> i \<Longrightarrow> i \<le> k \<Longrightarrow> samplePoint ideal r i = \<lparr> X = r - 1, Y = 0 \<rparr>"
    "\<And>i. k < i \<Longrightarrow> i < 360 - k \<Longrightarrow> samplePoint ideal r i \<noteq> \<lparr> X = r - 1, Y = 0 \<rparr>"
    "\<And>i. 360 - k \<le> i \<Longrightarrow> i < 360 \<Longrightarrow> samplePoint ideal r i = \<lparr> X = r - 1, Y = 0 \<rparr>"
proof -
  let ?v = "\<lparr> X = r - 1, Y = 0 \<rparr>"
  let ?K = "{i. 1 \<le> i \<and> i \<le> 89 \<and> samplePoint ideal r i = ?v}"
  have fin: "finite ?K" by simp
  have one: "1 \<in> ?K" using second_at_one [OF assms] by simp
  define k where "k = Max ?K"
  have ne: "?K \<noteq> {}" using one by blast
  have kin: "k \<in> ?K" unfolding k_def using fin ne by (rule Max_in)
  then have k1: "1 \<le> k" and k89: "k \<le> 89" and pk: "samplePoint ideal r k = ?v" by simp_all
  have low: "samplePoint ideal r i = ?v" if "1 \<le> i" "i \<le> k" for i
    using that k89 pk assms(1) by (intro second_down [of i k r]) simp_all
  have gap1: "samplePoint ideal r i \<noteq> ?v" if "k < i" "i \<le> 89" for i
  proof
    assume "samplePoint ideal r i = ?v"
    then have "i \<in> ?K" using that k1 by simp
    then have "i \<le> k" unfolding k_def using fin by (intro Max_ge)
    then show False using that by simp
  qed
  have gap: "samplePoint ideal r i \<noteq> ?v" if "k < i" "i < 360 - k" for i
  proof (cases "i \<le> 89")
    case True
    then show ?thesis using that gap1 by simp
  next
    case False
    show ?thesis
    proof (cases "i \<le> 270")
      case True
      then show ?thesis using False assms(1) by (intro second_not_left) simp_all
    next
      case far: False
      have "samplePoint ideal r (360 - (360 - i)) = ?v \<longleftrightarrow> samplePoint ideal r (360 - i) = ?v"
        by (rule mirror) simp
      moreover have "360 - (360 - i) = i" using that by simp
      moreover have "samplePoint ideal r (360 - i) \<noteq> ?v" using that far by (intro gap1) simp_all
      ultimately show ?thesis by simp
    qed
  qed
  have high: "samplePoint ideal r i = ?v" if "360 - k \<le> i" "i < 360" for i
  proof -
    have "samplePoint ideal r (360 - (360 - i)) = ?v \<longleftrightarrow> samplePoint ideal r (360 - i) = ?v"
      by (rule mirror) simp
    moreover have "360 - (360 - i) = i" using that by simp
    moreover have "samplePoint ideal r (360 - i) = ?v" using that by (intro low) simp_all
    ultimately show ?thesis by simp
  qed
  show thesis using that [OF k1 k89 low gap high] by blast
qed

lemma remdups_adj_all_same:
  assumes "xs \<noteq> []" "\<forall>x \<in> set xs. x = v"
  shows "remdups_adj xs = [v]"
proof -
  have "replicate (length xs) v = xs" using assms(2) by (intro replicate_length_same) simp
  then have "remdups_adj xs = remdups_adj (replicate (length xs) v)" by simp
  also have "\<dots> = [v]" using assms(1) by (simp only: remdups_adj_replicate) simp
  finally show ?thesis .
qed

lemma all_same_ends:
  assumes "xs \<noteq> []" "\<forall>x \<in> set xs. x = v"
  shows "hd xs = v" "last xs = v"
  using assms by (simp_all add: hd_in_set last_in_set)

lemma count_head_once:
  assumes "v \<notin> set rest"
  shows "count_list (remdups_adj (v # rest)) v = 1"
proof -
  have "rest = [] \<or> last [v] \<noteq> hd rest" using assms by (cases rest) auto
  then have "remdups_adj ([v] @ rest) = remdups_adj [v] @ remdups_adj rest"
    by (intro remdups_adj_append') simp
  then show ?thesis using assms by simp
qed

lemma count_two_runs:
  assumes "s0 \<noteq> v" "A \<noteq> []" "\<forall>x \<in> set A. x = v" "B \<noteq> []" "v \<notin> set B"
    "C \<noteq> []" "\<forall>x \<in> set C. x = v"
  shows "count_list (remdups_adj (s0 # A @ B @ C)) v = 2"
proof -
  have hdB: "hd B \<noteq> v" and lastB: "last B \<noteq> v" using assms(4,5) by (metis hd_in_set, metis last_in_set)
  have 1: "remdups_adj (B @ C) = remdups_adj B @ remdups_adj C"
    using lastB all_same_ends(1) [OF assms(6,7)] by (intro remdups_adj_append') simp
  have 2: "remdups_adj ((s0 # A) @ (B @ C)) = remdups_adj (s0 # A) @ remdups_adj (B @ C)"
    using hdB all_same_ends(2) [OF assms(2,3)] assms(2,4) by (intro remdups_adj_append') simp
  have 3: "remdups_adj ([s0] @ A) = remdups_adj [s0] @ remdups_adj A"
    using assms(1) all_same_ends(1) [OF assms(2,3)] by (intro remdups_adj_append') simp
  have "remdups_adj (s0 # A @ B @ C) = [s0] @ [v] @ remdups_adj B @ [v]"
    using 1 2 3 remdups_adj_all_same [OF assms(2,3)] remdups_adj_all_same [OF assms(6,7)] by simp
  then show ?thesis using assms(1,5) by simp
qed

lemma upt_split: "a \<le> b \<Longrightarrow> b \<le> c \<Longrightarrow> [a..<c] = [a..<b] @ [b..<c]"
  using upt_add_eq_append [of a b "c - b"] by simp

lemma sweep_samples: "p \<in> set (sweep ev r) \<longleftrightarrow> (\<exists>i < 360. p = samplePoint ev r i)"
  by (auto simp: sweep_def)

lemma axis_count_first:
  assumes "1 \<le> r"
  shows "count_list (calcCirclePoints ideal r) \<lparr> X = r, Y = 0 \<rparr> = 1"
proof -
  let ?rest = "map (samplePoint ideal r) [Suc 0..<360]"
  have "\<lparr> X = r, Y = 0 \<rparr> \<notin> set ?rest"
  proof
    assume "\<lparr> X = r, Y = 0 \<rparr> \<in> set ?rest"
    then obtain i where i: "Suc 0 \<le> i" "i < 360" "samplePoint ideal r i = \<lparr> X = r, Y = 0 \<rparr>" by auto
    then have "X (samplePoint ideal r i) = r" by simp
    then have "i = 0" using first_only [OF i(2) assms] by simp
    then show False using i(1) by simp
  qed
  then have "count_list (remdups_adj (\<lparr> X = r, Y = 0 \<rparr> # ?rest)) \<lparr> X = r, Y = 0 \<rparr> = 1"
    by (rule count_head_once)
  moreover have "calcCirclePoints ideal r = remdups_adj (\<lparr> X = r, Y = 0 \<rparr> # ?rest)"
    using assms calcCirclePoints_ideal_first(2) [of r] sweep_first [of ideal r]
    by (simp add: samplePoint_ideal_first)
  ultimately show ?thesis by simp
qed

lemma axis_count_none:
  assumes "1 \<le> r" "\<bar>x\<bar> < r - 1"
  shows "count_list (calcCirclePoints ideal r) \<lparr> X = x, Y = 0 \<rparr> = 0"
proof -
  have "\<lparr> X = x, Y = 0 \<rparr> \<notin> set (sweep ideal r)"
  proof
    assume "\<lparr> X = x, Y = 0 \<rparr> \<in> set (sweep ideal r)"
    then obtain i where i: "samplePoint ideal r i = \<lparr> X = x, Y = 0 \<rparr>"
      using sweep_samples by metis
    then have "Y (samplePoint ideal r i) = 0" "X (samplePoint ideal r i) = x" by simp_all
    then have "r - 1 \<le> \<bar>x\<bar>" using on_axis_far [of r i] assms(1) by simp
    then show False using assms(2) by simp
  qed
  moreover have "calcCirclePoints ideal r = remdups_adj (sweep ideal r)"
    using assms(1) by (intro calcCirclePoints_ideal_first(2)) simp
  ultimately show ?thesis by simp
qed

lemma axis_count_second:
  assumes "2 \<le> r" "r \<le> 14"
  shows "count_list (calcCirclePoints ideal r) \<lparr> X = r - 1, Y = 0 \<rparr> = 2"
proof -
  let ?v = "\<lparr> X = r - 1, Y = 0 \<rparr>"
  let ?f = "samplePoint ideal r"
  obtain k where k: "1 \<le> k" "k \<le> 89"
    and low: "\<And>i. 1 \<le> i \<Longrightarrow> i \<le> k \<Longrightarrow> ?f i = ?v"
    and gap: "\<And>i. k < i \<Longrightarrow> i < 360 - k \<Longrightarrow> ?f i \<noteq> ?v"
    and high: "\<And>i. 360 - k \<le> i \<Longrightarrow> i < 360 \<Longrightarrow> ?f i = ?v"
    using second_runs [OF assms] by blast
  let ?A = "map ?f [Suc 0..<Suc k]" and ?B = "map ?f [Suc k..<360 - k]" and ?C = "map ?f [360 - k..<360]"
  have "[Suc 0..<360] = [Suc 0..<Suc k] @ [Suc k..<360]" using k by (intro upt_split) simp_all
  also have "[Suc k..<360] = [Suc k..<360 - k] @ [360 - k..<360]" using k by (intro upt_split) simp_all
  finally have "map ?f [Suc 0..<360] = ?A @ ?B @ ?C" by simp
  then have sw: "sweep ideal r = \<lparr> X = r, Y = 0 \<rparr> # ?A @ ?B @ ?C"
    by (simp add: sweep_first [of ideal r] samplePoint_ideal_first)
  have "count_list (remdups_adj (\<lparr> X = r, Y = 0 \<rparr> # ?A @ ?B @ ?C)) ?v = 2"
  proof (rule count_two_runs)
    show "\<lparr> X = r, Y = 0 \<rparr> \<noteq> ?v" by simp
    show "?A \<noteq> []" using k by simp
    show "\<forall>x \<in> set ?A. x = ?v" using low by auto
    show "?B \<noteq> []" using k by simp
    show "?v \<notin> set ?B"
    proof
      assume "?v \<in> set ?B"
      then obtain i where "Suc k \<le> i" "i < 360 - k" "?f i = ?v" by auto
      then show False using gap [of i] by simp
    qed
    show "?C \<noteq> []" using k by simp
    show "\<forall>x \<in> set ?C. x = ?v" using high by auto
  qed
  moreover have "calcCirclePoints ideal r = remdups_adj (sweep ideal r)"
    using assms(1) by (intro calcCirclePoints_ideal_first(2)) simp
  ultimately show ?thesis using sw by simp
qed

subsection \<open>The coarse pass on a row with one foreground pixel\<close>

lemma upt7: "[0..<7] = [0, 1, 2, 3, 4, 5, 6]"
  by code_simp

lemma point_eta: "(cp :: Point) = \<lparr> X = X cp, Y = Y cp \<rparr>"
  by simp

lemma castVote_im7:
  assumes "length vs = 7" "\<forall>b < 7. vs ! b + 1 < 32768 \<and> - 32768 \<le> vs ! b + 1"
  shows "castVote im7 0 1 (row7 vs) cp
    = Inr (row7 (map (\<lambda>b. vs ! b + (if cp = \<lparr> X = int b - 1, Y = 0 \<rparr> then 1 else 0)) [0..<7]))"
proof (cases "Y cp = 0 \<and> 0 \<le> 1 + X cp \<and> 1 + X cp < 7")
  case True
  let ?b = "nat (1 + X cp)"
  have b: "?b < 7" "int ?b = 1 + X cp" using True by (auto simp: nat_less_iff)
  have cp: "\<And>c. cp = \<lparr> X = int c - 1, Y = 0 \<rparr> \<longleftrightarrow> c = ?b"
    using True by (subst point_eta [of cp]) auto
  have w: "wrap16 (vs ! ?b + 1) = vs ! ?b + 1" using assms(2) b(1) by (simp add: wrap16_def)
  have "castVote im7 0 1 (row7 vs) cp = Inr (row7 (vs[?b := vs ! ?b + 1]))"
    using True w by (simp add: castVote_def im7_def row7_def getAt_def setAt_def inRange_def pix_def Let_def)
  moreover have "vs[?b := vs ! ?b + 1]
      = map (\<lambda>c. vs ! c + (if cp = \<lparr> X = int c - 1, Y = 0 \<rparr> then 1 else 0)) [0..<7]"
    using assms(1) by (intro nth_equalityI) (auto simp: cp nth_list_update)
  ultimately show ?thesis by simp
next
  case False
  then have cp: "\<And>c. c < 7 \<Longrightarrow> cp \<noteq> \<lparr> X = int c - 1, Y = 0 \<rparr>"
    by (subst point_eta [of cp]) auto
  have "castVote im7 0 1 (row7 vs) cp = Inr (row7 vs)"
    using False by (auto simp: castVote_def im7_def row7_def Let_def)
  moreover have "vs = map (\<lambda>c. vs ! c + (if cp = \<lparr> X = int c - 1, Y = 0 \<rparr> then 1 else 0)) [0..<7]"
    using assms(1) by (intro nth_equalityI) (auto simp: cp)
  ultimately show ?thesis by simp
qed

lemma castVotes_im7:
  assumes "length vs = 7" "\<forall>b < 7. 0 \<le> vs ! b \<and> vs ! b + int (length pts) < 32768"
  shows "foldE (castVote im7 0 1) (row7 vs) pts
    = Inr (row7 (map (\<lambda>b. vs ! b + int (count_list pts \<lparr> X = int b - 1, Y = 0 \<rparr>)) [0..<7]))"
  using assms
proof (induction pts arbitrary: vs)
  case Nil
  have "vs = map (\<lambda>b. vs ! b) [0..<7]" using Nil(1) by (intro nth_equalityI) auto
  then show ?case by simp
next
  case (Cons cp pts)
  let ?vs' = "map (\<lambda>b. vs ! b + (if cp = \<lparr> X = int b - 1, Y = 0 \<rparr> then 1 else 0)) [0..<7]"
  have step: "castVote im7 0 1 (row7 vs) cp = Inr (row7 ?vs')"
    using Cons.prems by (intro castVote_im7) auto
  have "foldE (castVote im7 0 1) (row7 ?vs') pts
      = Inr (row7 (map (\<lambda>b. ?vs' ! b + int (count_list pts \<lparr> X = int b - 1, Y = 0 \<rparr>)) [0..<7]))"
    using Cons.prems by (intro Cons.IH) auto
  moreover have "map (\<lambda>b. ?vs' ! b + int (count_list pts \<lparr> X = int b - 1, Y = 0 \<rparr>)) [0..<7]
      = map (\<lambda>b. vs ! b + int (count_list (cp # pts) \<lparr> X = int b - 1, Y = 0 \<rparr>)) [0..<7]"
    by (intro map_cong) auto
  ultimately show ?case using step by simp
qed

lemma voteGrid_im7:
  assumes "length pts \<le> 360"
  shows "voteGrid im7 pts
    = Inr (row7 (map (\<lambda>b. int (count_list pts \<lparr> X = int b - 1, Y = 0 \<rparr>)) [0..<7]))"
proof -
  have z: "NewMatWithSize 1 7 = row7 [0, 0, 0, 0, 0, 0, 0]"
    by (simp add: NewMatWithSize_def row7_def eval_nat_numeral)
  have "foldE (castVote im7 0 1) (row7 [0, 0, 0, 0, 0, 0, 0]) pts
      = Inr (row7 (map (\<lambda>b. [0, 0, 0, 0, 0, 0, 0] ! b + int (count_list pts \<lparr> X = int b - 1, Y = 0 \<rparr>)) [0..<7]))"
    using assms by (intro castVotes_im7) (auto simp: nth_Cons' )
  moreover have "map (\<lambda>b. [0, 0, 0, 0, 0, 0, 0] ! b + int (count_list pts \<lparr> X = int b - 1, Y = 0 \<rparr>)) [0..<7]
      = map (\<lambda>b. int (count_list pts \<lparr> X = int b - 1, Y = 0 \<rparr>)) [0..<7]"
    by (intro map_cong) (auto simp: nth_Cons')
  ultimately have f: "foldE (castVote im7 0 1) (row7 [0, 0, 0, 0, 0, 0, 0]) pts
      = Inr (row7 (map (\<lambda>b. int (count_list pts \<lparr> X = int b - 1, Y = 0 \<rparr>)) [0..<7]))"
    by simp
  have px: "pix im7 (0, 0) = 0" "pix im7 (0, 1) = 255" "pix im7 (0, 2) = 0" "pix im7 (0, 3) = 0"
    "pix im7 (0, 4) = 0" "pix im7 (0, 5) = 0" "pix im7 (0, 6) = 0"
    by (simp_all add: pix_def im7_def)
  have skip: "\<And>c v. c < 7 \<Longrightarrow> c \<noteq> 1 \<Longrightarrow> votePixel im7 pts 0 v (int c) = Inr v"
  proof -
    fix c :: nat and v
    assume "c < 7" "c \<noteq> 1"
    then have "c = 0 \<or> c = 2 \<or> c = 3 \<or> c = 4 \<or> c = 5 \<or> c = 6" by arith
    then have "pix im7 (0, c) = 0" using px by auto
    then show "votePixel im7 pts 0 v (int c) = Inr v"
      using \<open>c < 7\<close> by (simp add: votePixel_def getAt_def inRange_def im7_def)
  qed
  have hit: "\<And>v. votePixel im7 pts 0 v 1 = foldE (castVote im7 0 1) v pts"
    using px(2) by (simp add: votePixel_def getAt_def inRange_def im7_def)
  have "voteRow im7 pts (row7 [0, 0, 0, 0, 0, 0, 0]) 0
      = Inr (row7 (map (\<lambda>b. int (count_list pts \<lparr> X = int b - 1, Y = 0 \<rparr>)) [0..<7]))"
    using skip [of 0] skip [of 2] skip [of 3] skip [of 4] skip [of 5] skip [of 6] hit f
    by (simp add: voteRow_def im7_def upt7 del: upt_Suc)
  then show ?thesis using z by (simp add: voteGrid_def im7_def)
qed

lemma grid5: "voteGrid im7 (calcCirclePoints ideal 5) = Inr (row7 [0, 0, 0, 0, 0, 2, 1])"
  using voteGrid_im7 [OF length_calcCirclePoints, of ideal 5]
    axis_count_none [of 5 "- 1"] axis_count_none [of 5 0] axis_count_none [of 5 1]
    axis_count_none [of 5 2] axis_count_none [of 5 3]
    axis_count_second [of 5] axis_count_first [of 5]
  by (simp add: upt7)

lemma grid6: "voteGrid im7 (calcCirclePoints ideal 6) = Inr (row7 [0, 0, 0, 0, 0, 0, 2])"
  using voteGrid_im7 [OF length_calcCirclePoints, of ideal 6]
    axis_count_none [of 6 "- 1"] axis_count_none [of 6 0] axis_count_none [of 6 1]
    axis_count_none [of 6 2] axis_count_none [of 6 3] axis_count_none [of 6 4]
    axis_count_second [of 6]
  by (simp add: upt7)

lemma gridBig:
  assumes "7 \<le> r"
  shows "voteGrid im7 (calcCirclePoints ideal r) = Inr (row7 [0, 0, 0, 0, 0, 0, 0])"
  using voteGrid_im7 [OF length_calcCirclePoints, of ideal r] assms
    axis_count_none [of r "- 1"] axis_count_none [of r 0] axis_count_none [of r 1]
    axis_count_none [of r 2] axis_count_none [of r 3] axis_count_none [of r 4]
    axis_count_none [of r 5]
  by (simp add: upt7)

lemmas scan_simps = scanGrid_def scanRow_def im7_def row7_def upt7 getAt_def inRange_def pix_def

lemma scan5_first:
  "scanGrid im7 (row7 [0, 0, 0, 0, 0, 2, 1]) 5 (noCircle, 0) = Inr (\<lparr> X = 5, Y = 0, R = 5 \<rparr>, 2)"
  by (simp add: scan_simps)

lemma scan5_after: "scanGrid im7 (row7 [0, 0, 0, 0, 0, 2, 1]) 5 (c, 2) = Inr (c, 2)"
  by (simp add: scan_simps)

lemma scan6_first:
  "scanGrid im7 (row7 [0, 0, 0, 0, 0, 0, 2]) 6 (noCircle, 0) = Inr (\<lparr> X = 6, Y = 0, R = 6 \<rparr>, 2)"
  by (simp add: scan_simps)

lemma scan6_after: "scanGrid im7 (row7 [0, 0, 0, 0, 0, 0, 2]) 6 (c, 2) = Inr (c, 2)"
  by (simp add: scan_simps)

lemma scanBig: "scanGrid im7 (row7 [0, 0, 0, 0, 0, 0, 0]) r (c, 2) = Inr (c, 2)"
  by (simp add: scan_simps)

lemma samplePoint_swapped: "samplePoint swapped r = samplePoint ideal r"
  by (rule ext) (simp add: samplePoint_def swapped_def)

lemma calcCirclePoints_swapped: "calcCirclePoints swapped r = calcCirclePoints ideal r"
  by (simp add: calcCirclePoints_def sweep_def samplePoint_swapped)

lemma coarseRadius_swapped: "coarseRadius swapped small b r = coarseRadius ideal small b r"
  by (simp add: coarseRadius_def circlePoints_def calcCirclePoints_swapped)

lemma radius5_first:
  "coarseRadius ideal im7 (noCircle, 0) 5 = Inr (\<lparr> X = 5, Y = 0, R = 5 \<rparr>, 2)"
  by (simp add: coarseRadius_def circlePoints_def grid5 scan5_first)

lemma radius5_after: "coarseRadius ideal im7 (c, 2) 5 = Inr (c, 2)"
  by (simp add: coarseRadius_def circlePoints_def grid5 scan5_after)

lemma radius6_first:
  "coarseRadius ideal im7 (noCircle, 0) 6 = Inr (\<lparr> X = 6, Y = 0, R = 6 \<rparr>, 2)"
  by (simp add: coarseRadius_def circlePoints_def grid6 scan6_first)

lemma radius6_after: "coarseRadius ideal im7 (c, 2) 6 = Inr (c, 2)"
  by (simp add: coarseRadius_def circlePoints_def grid6 scan6_after)

lemma radiusBig: "7 \<le> r \<Longrightarrow> coarseRadius ideal im7 (c, 2) r = Inr (c, 2)"
  by (simp add: coarseRadius_def circlePoints_def gridBig scanBig)

lemma rangeOrder_ideal: "rangeOrder ideal = [5, 6, 7, 8, 9, 10, 11, 12, 13, 14]"
  by (simp add: ideal_def)

lemma rangeOrder_swapped: "rangeOrder swapped = [6, 5, 7, 8, 9, 10, 11, 12, 13, 14]"
  by (simp add: swapped_def)

lemma coarsePass_im7_ideal:
  "coarsePass ideal im7 = Inr (\<lparr> X = 5, Y = 0, R = 5 \<rparr>, 2)"
  by (simp add: coarsePass_def rangeOrder_ideal radius5_first radius6_after radiusBig)

lemma coarsePass_im7_swapped:
  "coarsePass swapped im7 = Inr (\<lparr> X = 6, Y = 0, R = 6 \<rparr>, 2)"
  by (simp add: coarsePass_def rangeOrder_swapped coarseRadius_swapped
      radius6_first radius5_after radiusBig)

lemma scaleUp_ideal_one: "scaleUp ideal c 1 = c"
  by (simp add: scaleUp_def ideal_def)

lemma scaleUp_swapped_one: "scaleUp swapped c 1 = c"
  by (simp add: scaleUp_def swapped_def ideal_def)

lemma findBestCircle_im7_ideal:
  "findBestCircle ideal im7 = Inr (\<lparr> X = 5, Y = 0, R = 5 \<rparr>, \<lparr> X = 5, Y = 0, R = 5 \<rparr>)"
proof -
  have "shrink ideal im7 60 = Inr (im7, 1)" by (intro shrink_small) (simp add: im7_def)
  then show ?thesis
    by (simp add: findBestCircle_def coarsePass_im7_ideal refine_mult_one scaleUp_ideal_one)
qed

lemma findBestCircle_im7_swapped:
  "findBestCircle swapped im7 = Inr (\<lparr> X = 6, Y = 0, R = 6 \<rparr>, \<lparr> X = 6, Y = 0, R = 6 \<rparr>)"
proof -
  have "shrink swapped im7 60 = Inr (im7, 1)" by (intro shrink_small) (simp add: im7_def)
  then show ?thesis
    by (simp add: findBestCircle_def coarsePass_im7_swapped refine_mult_one scaleUp_swapped_one)
qed

subsection \<open>The fine pass stays inside its cube\<close>

lemma foldE_invariant:
  assumes "foldE f s xs = Inr t" "J s"
    and "\<And>s x s'. J s \<Longrightarrow> x \<in> set xs \<Longrightarrow> f s x = Inr s' \<Longrightarrow> J s'"
  shows "J t"
  using assms
proof (induction xs arbitrary: s)
  case Nil
  then show ?case by simp
next
  case (Cons x xs)
  from Cons.prems(1) obtain s1 where s1: "f s x = Inr s1" and rest: "foldE f s1 xs = Inr t"
    by (auto simp: bindE_eq_Inr)
  have "J s1" using Cons.prems(3) [OF Cons.prems(2) _ s1] by simp
  then show ?case using rest Cons.prems(3) by (intro Cons.IH [of s1]) auto
qed

lemma fineCandidate_inCube:
  assumes "fineCandidate im r pts row b col = Inr b'" "inCube a u b"
    and "R a - u \<le> r" "r < R a + u" "Y a - u \<le> row" "row \<le> Y a + u"
    and "X a - u \<le> col" "col \<le> X a + u"
  shows "inCube a u b'"
proof -
  obtain w wv where b: "b = (w, wv)" by (cases b)
  from assms(1) b obtain v where v: "foldE (countVote im row col) 0 pts = Inr v"
    and b': "b' = (if v > wv then (\<lparr> X = col, Y = row, R = r \<rparr>, v) else (w, wv))"
    by (auto simp: bindE_eq_Inr split: if_splits)
  show ?thesis using b' assms(2-) b by (auto simp: inCube_def)
qed

lemma finePass_inCube:
  assumes "finePass ev im a u = Inr b"
  shows "inCube a u b"
proof -
  have cell: "inCube a u s'"
    if "inCube a u s" "fineRow im a u r (calcCirclePoints ev r) s row = Inr s'"
      "R a - u \<le> r" "r < R a + u" "Y a - u \<le> row" "row \<le> Y a + u" for s s' r row
    using that(2) [unfolded fineRow_def] that(1)
  proof (rule foldE_invariant)
    fix t col t'
    assume "inCube a u t" "col \<in> set [X a - u .. X a + u]"
      "fineCandidate im r (calcCirclePoints ev r) row t col = Inr t'"
    then show "inCube a u t'" using that(3-) by (intro fineCandidate_inCube [of im r _ row t col t']) auto
  qed
  have rad: "inCube a u s'"
    if "inCube a u s" "fineRadius ev im a u s r = Inr s'" "R a - u \<le> r" "r < R a + u" for s s' r
    using that(2) [unfolded fineRadius_def] that(1)
  proof (rule foldE_invariant)
    fix t row t'
    assume "inCube a u t" "row \<in> set [Y a - u .. Y a + u]"
      "fineRow im a u r (calcCirclePoints ev r) t row = Inr t'"
    then show "inCube a u t'" using that(3,4) by (intro cell [of t r row t']) auto
  qed
  have "inCube a u (noCircle, 0)" by (simp add: inCube_def)
  with assms [unfolded finePass_def] show ?thesis
  proof (rule foldE_invariant)
    fix t r t'
    assume "inCube a u t" "r \<in> set [R a - u .. R a + u - 1]" "fineRadius ev im a u t r = Inr t'"
    then show "inCube a u t'" by (intro rad [of t r t']) auto
  qed
qed

subsection \<open>The circle of radius \<open>- 1\<close>\<close>

lemma remdups_adj_step:
  assumes "Z \<noteq> []" "\<forall>y \<in> set Z. y = z" "x \<noteq> z" "rest = [] \<or> hd rest \<noteq> z"
  shows "remdups_adj (x # Z @ rest) = x # z # remdups_adj rest"
proof -
  have 1: "remdups_adj ([x] @ Z) = remdups_adj [x] @ remdups_adj Z"
    using assms(3) all_same_ends(1) [OF assms(1,2)] by (intro remdups_adj_append') simp
  have 2: "remdups_adj ((x # Z) @ rest) = remdups_adj (x # Z) @ remdups_adj rest"
    using assms(1,4) all_same_ends(2) [OF assms(1,2)] by (intro remdups_adj_append') auto
  show ?thesis using 1 2 remdups_adj_all_same [OF assms(1,2)] by simp
qed

lemma off_axis_small:
  assumes "i < 360" "i \<noteq> 0" "i \<noteq> 90" "i \<noteq> 180" "i \<noteq> 270"
  shows "\<bar>cos (deg i)\<bar> < 1" "\<bar>sin (deg i)\<bar> < 1"
proof -
  have s: "sin (deg i) \<noteq> 0"
  proof
    assume "sin (deg i) = 0"
    then obtain n :: int where "deg i = of_int n * pi" using sin_zero_iff_int2 by blast
    then have "real i * pi = (180 * of_int n) * pi" by (simp add: deg_def)
    then have "real i = 180 * of_int n" by simp
    then have "(of_int (int i) :: real) = of_int (180 * n)" by simp
    then have e: "int i = 180 * n" by (simp only: of_int_eq_iff)
    then have "0 \<le> 180 * n" "180 * n < 360" using assms(1) by linarith+
    then have "n = 0 \<or> n = 1" by linarith
    then show False using e assms(2,4) by auto
  qed
  have c: "cos (deg i) \<noteq> 0"
  proof
    assume "cos (deg i) = 0"
    then obtain n :: int where n: "odd n" "deg i = of_int n * (pi / 2)" using cos_zero_iff_int by blast
    then have "real i * pi = (90 * of_int n) * pi" by (simp add: deg_def)
    then have "real i = 90 * of_int n" by simp
    then have "(of_int (int i) :: real) = of_int (90 * n)" by simp
    then have e: "int i = 90 * n" by (simp only: of_int_eq_iff)
    then have "0 \<le> 90 * n" "90 * n < 360" using assms(1) by linarith+
    then have "n = 0 \<or> n = 1 \<or> n = 2 \<or> n = 3" by linarith
    then have "n = 1 \<or> n = 3" using n(1) by auto
    then show False using e assms(3,5) by auto
  qed
  have sq: "(sin (deg i))\<^sup>2 + (cos (deg i))\<^sup>2 = 1" by simp
  have "0 < (sin (deg i))\<^sup>2" "0 < (cos (deg i))\<^sup>2" using s c by simp_all
  then have "(cos (deg i))\<^sup>2 < 1" "(sin (deg i))\<^sup>2 < 1" using sq by linarith+
  then show "\<bar>cos (deg i)\<bar> < 1" "\<bar>sin (deg i)\<bar> < 1" by (simp_all add: abs_square_less_1)
qed

lemma unit_sample_origin:
  assumes "i < 360" "i \<noteq> 0" "i \<noteq> 90" "i \<noteq> 180" "i \<noteq> 270"
  shows "samplePoint ideal (- 1) i = \<lparr> X = 0, Y = 0 \<rparr>"
  using off_axis_small [OF assms] by (simp add: ideal_sample_eq goInt_eq_0_iff)

lemma goInt_units: "goInt 1 = 1" "goInt (- 1) = - 1"
  using goInt_of_int [of 1] goInt_of_int [of "- 1"] by simp_all

lemma unit_sample_axes:
  "samplePoint ideal (- 1) 0 = \<lparr> X = - 1, Y = 0 \<rparr>"
  "samplePoint ideal (- 1) 90 = \<lparr> X = 0, Y = - 1 \<rparr>"
  "samplePoint ideal (- 1) 180 = \<lparr> X = 1, Y = 0 \<rparr>"
  "samplePoint ideal (- 1) 270 = \<lparr> X = 0, Y = 1 \<rparr>"
proof -
  have e: "deg 270 = pi / 2 + pi" by (simp add: deg_def)
  have "cos (pi / 2 + pi) = 0" "sin (pi / 2 + pi) = - 1"
    by (simp_all only: cos_periodic_pi sin_periodic_pi cos_pi_half sin_pi_half minus_zero)
  then have "cos (deg 270) = 0" "sin (deg 270) = - 1" by (simp_all only: e)
  then show "samplePoint ideal (- 1) 270 = \<lparr> X = 0, Y = 1 \<rparr>"
    by (simp add: ideal_sample_eq goInt_units)
qed (simp_all add: ideal_sample_eq deg_bounds goInt_units)

lemma quarter:
  assumes "a < b" "b \<le> 360" "\<And>i. a \<le> i \<Longrightarrow> i < b \<Longrightarrow> i \<noteq> 0 \<and> i \<noteq> 90 \<and> i \<noteq> 180 \<and> i \<noteq> 270"
  shows "map (samplePoint ideal (- 1)) [a..<b] \<noteq> []"
    "\<forall>y \<in> set (map (samplePoint ideal (- 1)) [a..<b]). y = \<lparr> X = 0, Y = 0 \<rparr>"
proof -
  show "map (samplePoint ideal (- 1)) [a..<b] \<noteq> []" using assms(1) by simp
  show "\<forall>y \<in> set (map (samplePoint ideal (- 1)) [a..<b]). y = \<lparr> X = 0, Y = 0 \<rparr>"
  proof
    fix y
    assume "y \<in> set (map (samplePoint ideal (- 1)) [a..<b])"
    then obtain i where i: "a \<le> i" "i < b" "y = samplePoint ideal (- 1) i" by auto
    then show "y = \<lparr> X = 0, Y = 0 \<rparr>" using assms(2) assms(3) [of i] by (simp add: unit_sample_origin)
  qed
qed

lemma calcCirclePoints_minus_one:
  "calcCirclePoints ideal (- 1)
   = [\<lparr> X = - 1, Y = 0 \<rparr>, \<lparr> X = 0, Y = 0 \<rparr>, \<lparr> X = 0, Y = - 1 \<rparr>, \<lparr> X = 0, Y = 0 \<rparr>,
      \<lparr> X = 1, Y = 0 \<rparr>, \<lparr> X = 0, Y = 0 \<rparr>, \<lparr> X = 0, Y = 1 \<rparr>, \<lparr> X = 0, Y = 0 \<rparr>]"
proof -
  let ?f = "samplePoint ideal (- 1)"
  let ?o = "\<lparr> X = 0, Y = 0 \<rparr>"
  let ?Z1 = "map ?f [Suc 0..<90]" and ?Z2 = "map ?f [Suc 90..<180]"
  let ?Z3 = "map ?f [Suc 180..<270]" and ?Z4 = "map ?f [Suc 270..<360]"
  have "[0..<360] = [0..<90] @ [90..<360]" by (intro upt_split) simp_all
  also have "[90..<360] = [90..<180] @ [180..<360]" by (intro upt_split) simp_all
  also have "[180..<360] = [180..<270] @ [270..<360]" by (intro upt_split) simp_all
  finally have "[0..<360] = [0..<90] @ [90..<180] @ [180..<270] @ [270..<360]" .
  moreover have "[0..<90] = 0 # [Suc 0..<90]" "[90..<180] = 90 # [Suc 90..<180]"
    "[180..<270] = 180 # [Suc 180..<270]" "[270..<360] = 270 # [Suc 270..<360]"
    by (rule upt_conv_Cons, simp)+
  ultimately have "[0..<360] = 0 # [Suc 0..<90] @ 90 # [Suc 90..<180] @ 180 # [Suc 180..<270] @ 270 # [Suc 270..<360]"
    by (simp only: append_Cons)
  then have sw: "sweep ideal (- 1)
      = ?f 0 # ?Z1 @ ?f 90 # ?Z2 @ ?f 180 # ?Z3 @ ?f 270 # ?Z4"
    by (simp only: sweep_def list.map map_append)
  have q1: "?Z1 \<noteq> []" "\<forall>y \<in> set ?Z1. y = ?o" by (rule quarter; simp)+
  have q2: "?Z2 \<noteq> []" "\<forall>y \<in> set ?Z2. y = ?o" by (rule quarter; simp)+
  have q3: "?Z3 \<noteq> []" "\<forall>y \<in> set ?Z3. y = ?o" by (rule quarter; simp)+
  have q4: "?Z4 \<noteq> []" "\<forall>y \<in> set ?Z4. y = ?o" by (rule quarter; simp)+
  have 4: "remdups_adj (\<lparr> X = 0, Y = 1 \<rparr> # ?Z4 @ []) = \<lparr> X = 0, Y = 1 \<rparr> # ?o # remdups_adj []"
    using q4 by (intro remdups_adj_step) simp_all
  have 3: "remdups_adj (\<lparr> X = 1, Y = 0 \<rparr> # ?Z3 @ (\<lparr> X = 0, Y = 1 \<rparr> # ?Z4))
      = \<lparr> X = 1, Y = 0 \<rparr> # ?o # remdups_adj (\<lparr> X = 0, Y = 1 \<rparr> # ?Z4)"
    using q3 by (intro remdups_adj_step) simp_all
  have 2: "remdups_adj (\<lparr> X = 0, Y = - 1 \<rparr> # ?Z2 @ (\<lparr> X = 1, Y = 0 \<rparr> # ?Z3 @ \<lparr> X = 0, Y = 1 \<rparr> # ?Z4))
      = \<lparr> X = 0, Y = - 1 \<rparr> # ?o # remdups_adj (\<lparr> X = 1, Y = 0 \<rparr> # ?Z3 @ \<lparr> X = 0, Y = 1 \<rparr> # ?Z4)"
    using q2 by (intro remdups_adj_step) simp_all
  have 1: "remdups_adj (\<lparr> X = - 1, Y = 0 \<rparr> # ?Z1 @ (\<lparr> X = 0, Y = - 1 \<rparr> # ?Z2 @ \<lparr> X = 1, Y = 0 \<rparr> # ?Z3 @ \<lparr> X = 0, Y = 1 \<rparr> # ?Z4))
      = \<lparr> X = - 1, Y = 0 \<rparr> # ?o # remdups_adj (\<lparr> X = 0, Y = - 1 \<rparr> # ?Z2 @ \<lparr> X = 1, Y = 0 \<rparr> # ?Z3 @ \<lparr> X = 0, Y = 1 \<rparr> # ?Z4)"
    using q1 by (intro remdups_adj_step) simp_all
  have "calcCirclePoints ideal (- 1) = remdups_adj (sweep ideal (- 1))"
    by (intro calcCirclePoints_ideal_first(2)) simp
  also have "\<dots> = remdups_adj (\<lparr> X = - 1, Y = 0 \<rparr> # ?Z1 @ (\<lparr> X = 0, Y = - 1 \<rparr> # ?Z2 @ \<lparr> X = 1, Y = 0 \<rparr> # ?Z3 @ \<lparr> X = 0, Y = 1 \<rparr> # ?Z4))"
    by (simp only: sw unit_sample_axes)
  finally show ?thesis using 1 2 3 4 by (simp only: append_Nil2 remdups_adj.simps)
qed

lemma calcCirclePoints_ideal_zero: "calcCirclePoints ideal 0 = []"
  unfolding calcCirclePoints_collapse sweep_ideal_zero remdups_adj_const_Cons by simp

lemma blob5_read:
  "0 \<le> a \<Longrightarrow> a < 5 \<Longrightarrow> 0 \<le> b \<Longrightarrow> b < 5 \<Longrightarrow>
   GetUCharAt blob5 a b = Inr (if a = 2 \<and> b = 2 then 255 else 0)"
proof -
  assume r: "0 \<le> a" "a < 5" "0 \<le> b" "b < 5"
  then have "nat a < 5" "nat b < 5" by simp_all
  then have "pix blob5 (nat a, nat b) = (if nat a = 2 \<and> nat b = 2 then 255 else 0)"
    unfolding blob5_def by (rule pix_build)
  moreover have "nat a = 2 \<longleftrightarrow> a = 2" "nat b = 2 \<longleftrightarrow> b = 2" using r by auto
  ultimately show ?thesis using r by (simp add: getAt_def inRange_def blob5_def)
qed

lemma upto_13: "[1..3] = [1, 2, 3 :: int]"
  by (simp add: upto.simps)

lemma upto_m10: "[- 1..0] = [- 1, 0 :: int]"
  by (simp add: upto.simps)

lemma finePass_blob5:
  "finePass ideal blob5 \<lparr> X = 2, Y = 2, R = 0 \<rparr> 1 = Inr (\<lparr> X = 2, Y = 2, R = - 1 \<rparr>, 4)"
  by (simp add: finePass_def fineRadius_def fineRow_def countVote_def noCircle_def
      calcCirclePoints_minus_one calcCirclePoints_ideal_zero upto_13 upto_m10 blob5_read wrap16_def)

subsection \<open>The flood region is the connected component of the seed\<close>

lemma funpow_growth:
  assumes ext: "\<forall>S. S \<subseteq> f S" and bnd: "\<forall>S. S \<subseteq> P \<longrightarrow> f S \<subseteq> P"
    and fin: "finite P" and s0: "S0 \<subseteq> P"
    and moving: "\<forall>k < n. (f ^^ Suc k) S0 \<noteq> (f ^^ k) S0"
  shows "(f ^^ n) S0 \<subseteq> P \<and> n \<le> card ((f ^^ n) S0)"
  using moving
proof (induction n)
  case 0
  then show ?case using s0 by simp
next
  case (Suc n)
  have ih: "(f ^^ n) S0 \<subseteq> P" "n \<le> card ((f ^^ n) S0)" using Suc by simp_all
  have sub: "(f ^^ Suc n) S0 \<subseteq> P" using bnd ih(1) by simp
  have "(f ^^ n) S0 \<subseteq> (f ^^ Suc n) S0" using ext by simp
  moreover have "(f ^^ Suc n) S0 \<noteq> (f ^^ n) S0" using Suc.prems by simp
  ultimately have "(f ^^ n) S0 \<subset> (f ^^ Suc n) S0" by blast
  moreover have "finite ((f ^^ Suc n) S0)" using sub fin by (rule finite_subset)
  ultimately have "card ((f ^^ n) S0) < card ((f ^^ Suc n) S0)" by (intro psubset_card_mono)
  then show ?case using sub ih(2) by simp
qed

lemma funpow_fixed: "f S = S \<Longrightarrow> (f ^^ j) S = S"
  by (induction j) simp_all

lemma funpow_stabilises:
  assumes ext: "\<forall>S. S \<subseteq> f S" and bnd: "\<forall>S. S \<subseteq> P \<longrightarrow> f S \<subseteq> P"
    and fin: "finite P" and s0: "S0 \<subseteq> P"
  shows "f ((f ^^ card P) S0) = (f ^^ card P) S0"
proof -
  have "\<exists>k \<le> card P. (f ^^ Suc k) S0 = (f ^^ k) S0"
  proof (rule ccontr)
    assume "\<not> (\<exists>k \<le> card P. (f ^^ Suc k) S0 = (f ^^ k) S0)"
    then have "\<forall>k < Suc (card P). (f ^^ Suc k) S0 \<noteq> (f ^^ k) S0" by auto
    then have "(f ^^ Suc (card P)) S0 \<subseteq> P \<and> Suc (card P) \<le> card ((f ^^ Suc (card P)) S0)"
      by (rule funpow_growth [OF ext bnd fin s0])
    then show False using card_mono [OF fin, of "(f ^^ Suc (card P)) S0"] by simp
  qed
  then obtain k where k: "k \<le> card P" "f ((f ^^ k) S0) = (f ^^ k) S0" by auto
  have "(f ^^ card P) S0 = (f ^^ ((card P - k) + k)) S0" using k(1) by simp
  also have "\<dots> = (f ^^ (card P - k)) ((f ^^ k) S0)" by (simp only: funpow_add o_apply)
  also have "\<dots> = (f ^^ k) S0" using k(2) by (rule funpow_fixed)
  finally show ?thesis using k(2) by simp
qed

lemma card_positions: "card (set (positions m)) = rows m * cols m"
proof -
  have "distinct (positions m)" by (simp add: positions_def distinct_product)
  then show ?thesis by (simp add: distinct_card positions_def)
qed

lemma grow_bounded: "S \<subseteq> set (positions m) \<Longrightarrow> grow m v S \<subseteq> set (positions m)"
  by (auto simp: grow_def)

lemma grow_fills: "S \<subseteq> grow m v S"
  by (auto simp: grow_def)

lemma floodRegion_closed:
  assumes "seed \<in> set (positions m)"
  shows "grow m (pix m seed) (floodRegion m seed) = floodRegion m seed"
proof -
  have "grow m (pix m seed) ((grow m (pix m seed) ^^ card (set (positions m))) {seed})
      = (grow m (pix m seed) ^^ card (set (positions m))) {seed}"
    by (rule funpow_stabilises) (use assms grow_fills grow_bounded in auto)
  then show ?thesis by (simp add: floodRegion_def card_positions)
qed

lemma floodRegion_adjacent:
  assumes "seed \<in> set (positions m)" "p \<in> floodRegion m seed" "adjacent p q"
    "q \<in> set (positions m)" "pix m q = pix m seed"
  shows "q \<in> floodRegion m seed"
proof -
  have "q \<in> grow m (pix m seed) (floodRegion m seed)" using assms(2-) by (auto simp: grow_def)
  then show ?thesis using floodRegion_closed [OF assms(1)] by simp
qed

lemma funpow_grow_value:
  "q \<in> (grow m v ^^ k) {seed} \<Longrightarrow> q = seed \<or> (q \<in> set (positions m) \<and> pix m q = v)"
  by (induction k arbitrary: q) (auto simp: grow_def)

lemma floodRegion_value:
  "q \<in> floodRegion m seed \<Longrightarrow> pix m q = pix m seed"
  using funpow_grow_value [where q = q and m = m and v = "pix m seed" and k = "rows m * cols m" and seed = seed]
  by (auto simp: floodRegion_def)

lemma blob5_ring:
  "(grow (bordered blob5) 255 ^^ k) {(0, 0)} \<subseteq> {p. onBorder blob5 p}"
proof (induction k)
  case 0
  show ?case by (simp add: onBorder_def)
next
  case (Suc k)
  show ?case
  proof
    fix q
    assume "q \<in> (grow (bordered blob5) 255 ^^ Suc k) {(0, 0)}"
    then have "q \<in> grow (bordered blob5) 255 ((grow (bordered blob5) 255 ^^ k) {(0, 0)})" by simp
    then consider "q \<in> (grow (bordered blob5) 255 ^^ k) {(0, 0)}"
      | "q \<in> set (positions (bordered blob5))" "pix (bordered blob5) q = 255"
        "\<exists>p \<in> (grow (bordered blob5) 255 ^^ k) {(0, 0)}. adjacent p q"
      by (auto simp: grow_def)
    then show "q \<in> {p. onBorder blob5 p}"
    proof cases
      case 1
      then show ?thesis using Suc by blast
    next
      case 2
      obtain i j where q: "q = (i, j)" by (cases q)
      have r: "i < 5" "j < 5" using 2(1) q by (simp_all add: in_positions blob5_def)
      from 2(3) obtain p where p: "onBorder blob5 p" "adjacent p q" using Suc by blast
      show ?thesis
      proof (rule ccontr)
        assume "q \<notin> {p. onBorder blob5 p}"
        then have nb: "\<not> onBorder blob5 (i, j)" using q by simp
        then have "pix blob5 (i, j) = 255" using 2(2) q r by (simp add: pix_bordered blob5_def)
        then have "i = 2 \<and> j = 2" using r by (simp add: blob5_def split: if_splits)
        then show False using p q by (cases p) (auto simp: adjacent_def onBorder_def blob5_def)
      qed
    qed
  qed
qed

lemma fillHoles_blob5: "fillHoles blob5 = Inr (NewMatWithSize 5 5)"
proof -
  have w: "wf blob5" "0 < rows blob5" "0 < cols blob5" by (simp_all add: blob5_def)
  have "(2, 2) \<notin> kept blob5"
  proof
    assume "(2, 2) \<in> kept blob5"
    then have "onBorder blob5 (2, 2)"
      using blob5_ring [of "rows blob5 * cols blob5"] kept_unfold [OF w(2,3)] by blast
    then show False by (simp add: onBorder_def blob5_def)
  qed
  then have "build (rows blob5) (cols blob5) (\<lambda>i j. if (i, j) \<in> kept blob5 then pix blob5 (i, j) else 0)
      = build (rows blob5) (cols blob5) (\<lambda>i j. 0)"
    by (intro build_cong) (auto simp: blob5_def)
  moreover have "build 5 5 (\<lambda>i j. 0 :: uchar) = NewMatWithSize 5 5"
    by (rule mat_eqI) (simp_all add: wf_NewMat)
  ultimately show ?thesis using fillHoles_eq [OF w] by (simp add: blob5_def)
qed

section \<open>The claims\<close>

text \<open>
  Claim C9. For every radius, \<open>calcCirclePoints\<close> returns the 360-degree sweep with
  consecutive duplicates collapsed. At radius 0 every sample is the zero point, which is
  also the initial value of \<open>last\<close>, so no sample is ever appended: the function
  returns the empty sequence, while the collapsed sweep is the single offset \<open>(0, 0)\<close>.
\<close>

theorem calcCirclePoints_radius_zero:
  "calcCirclePoints ideal 0 = [] \<and> remdups_adj (sweep ideal 0) = [\<lparr> X = 0, Y = 0 \<rparr>]"
  unfolding calcCirclePoints_collapse sweep_ideal_zero remdups_adj_const_Cons
  using remdups_adj_const [OF upt_360_nonempty] by simp




text \<open>
  Claim C1. In the fine pass a circumference sample outside the full-resolution image
  is treated as background and never faults. The fine pass reads the pixel at line 244
  without the test that the coarse pass makes at lines 161-166: whenever some candidate
  of the cube has a sample outside the image, the read is outside the matrix and the
  pass ends in the fault.
\<close>

theorem fine_pass_reads_outside:
  assumes "R a - u \<le> r" "r < R a + u"
    and "Y a - u \<le> row" "row \<le> Y a + u"
    and "X a - u \<le> col" "col \<le> X a + u"
    and "cp \<in> set (calcCirclePoints ev r)"
    and "\<not> inRange im (row + Y cp) (col + X cp)"
  shows "finePass ev im a u = Inl OutOfRange"
  using assms by (rule finePass_outside)

theorem fine_pass_reads_outside_witness:
  "R noCircle - 1 \<le> - 1 \<and> - 1 < R noCircle + 1
   \<and> Y noCircle - 1 \<le> - 1 \<and> - 1 \<le> Y noCircle + 1
   \<and> X noCircle - 1 \<le> - 1 \<and> - 1 \<le> X noCircle + 1
   \<and> \<lparr> X = - 1, Y = 0 \<rparr> \<in> set (calcCirclePoints ideal (- 1))
   \<and> \<not> inRange (NewMatWithSize 3 3 :: uchar Mat) (- 1 + Y \<lparr> X = - 1, Y = 0 \<rparr>) (- 1 + X \<lparr> X = - 1, Y = 0 \<rparr>)
   \<and> finePass ideal (NewMatWithSize 3 3) noCircle 1 = Inl OutOfRange"
proof -
  have cp: "\<lparr> X = - 1, Y = 0 \<rparr> \<in> set (calcCirclePoints ideal (- 1))"
    using first_in_calcCirclePoints [of "- 1"] by simp
  have out: "\<not> inRange (NewMatWithSize 3 3 :: uchar Mat) (- 1 + Y \<lparr> X = - 1, Y = 0 \<rparr>) (- 1 + X \<lparr> X = - 1, Y = 0 \<rparr>)"
    by (simp add: inRange_def)
  have "finePass ideal (NewMatWithSize 3 3) noCircle 1 = Inl OutOfRange"
    by (rule fine_pass_reads_outside [where r = "- 1" and row = "- 1" and col = "- 1", OF _ _ _ _ _ _ cp out])
       (simp_all add: noCircle_def)
  then show ?thesis using cp out by (simp add: noCircle_def)
qed

text \<open>
  Claim C2. For an input whose fused edge map has no foreground pixel, \<open>FindPupil\<close>
  returns the zero circle twice and does not fault. With more than 60 rows the edge
  map is scaled down, the coarse winner stays the zero circle, and the fine pass starts
  at radius \<open>- uncertainty\<close>, row \<open>- uncertainty\<close>, column \<open>- uncertainty\<close>: its first
  read is outside the image, and \<open>FindPupil\<close> ends in a fault.
\<close>

theorem FindPupil_blank_large_faults:
  assumes "allZero (edges im)" "wf (edges im)" "60 < rows (edges im)"
  shows "\<exists>e. FindPupil ideal edges im = Inl e"
  using findBestCircle_zero_large [OF assms] by (simp add: FindPupil_def)

theorem FindPupil_blank_large_faults_witness:
  "allZero (NewMatWithSize 61 61) \<and> wf (NewMatWithSize 61 61 :: uchar Mat)
   \<and> 60 < rows (NewMatWithSize 61 61 :: uchar Mat)
   \<and> (\<exists>e. FindPupil ideal (\<lambda>im. im) (NewMatWithSize 61 61) = Inl e)"
proof -
  have h: "allZero (NewMatWithSize 61 61)" "wf (NewMatWithSize 61 61 :: uchar Mat)"
    "60 < rows (NewMatWithSize 61 61 :: uchar Mat)"
    by (simp_all add: allZero_NewMat wf_NewMat)
  show ?thesis
    using h FindPupil_blank_large_faults [of "\<lambda>im. im" "NewMatWithSize 61 61"] by simp
qed

text \<open>
  Claim C4. When the downscale step leaves the image unchanged (\<open>mult == 1\<close>),
  \<open>findBestCircle\<close> returns, and its approximate and refined circles are equal.
\<close>

theorem unscaled_approximate_is_refined:
  assumes "shrink ev im 60 = Inr (small, 1)"
  shows "\<exists>c. findBestCircle ev im = Inr (c, c)"
proof -
  obtain b where "coarsePass ev small = Inr b" using coarsePass_total by blast
  then show ?thesis using assms by (simp add: findBestCircle_def refine_mult_one)
qed

theorem unscaled_approximate_is_refined_witness:
  "shrink ideal im7 60 = Inr (im7, 1) \<and> (\<exists>c. findBestCircle ideal im7 = Inr (c, c))"
proof -
  have h: "shrink ideal im7 60 = Inr (im7, 1)"
    by (intro shrink_small) (simp add: im7_def)
  show ?thesis using h unscaled_approximate_is_refined [OF h] by simp
qed



text \<open>
  Claim C8. \<open>fillHoles\<close> is idempotent: on every image with at least one row and one
  column it returns, and applying it to its own result returns that result again.
  The image need not be binary.
\<close>

theorem fillHoles_idempotent:
  assumes "wf src" "0 < rows src" "0 < cols src"
  shows "\<exists>out. fillHoles src = Inr out \<and> fillHoles out = Inr out"
proof -
  let ?out = "build (rows src) (cols src) (\<lambda>i j. if (i, j) \<in> kept src then pix src (i, j) else 0)"
  have one: "fillHoles src = Inr ?out" using assms by (rule fillHoles_eq)
  have sub: "kept src \<subseteq> kept ?out" using assms by (rule kept_preserved) simp
  have "fillHoles ?out
      = Inr (build (rows ?out) (cols ?out) (\<lambda>i j. if (i, j) \<in> kept ?out then pix ?out (i, j) else 0))"
    using assms(2,3) by (intro fillHoles_eq) simp_all
  also have "build (rows ?out) (cols ?out) (\<lambda>i j. if (i, j) \<in> kept ?out then pix ?out (i, j) else 0) = ?out"
  proof -
    have "build (rows src) (cols src) (\<lambda>i j. if (i, j) \<in> kept ?out then pix ?out (i, j) else 0) = ?out"
    proof (rule build_cong)
      fix i j
      assume "i < rows src" "j < cols src"
      then show "(if (i, j) \<in> kept ?out then pix ?out (i, j) else 0)
          = (if (i, j) \<in> kept src then pix src (i, j) else 0)"
        using sub by auto
    qed
    then show ?thesis by simp
  qed
  finally show ?thesis using one by blast
qed

theorem fillHoles_idempotent_witness:
  "wf blob5 \<and> 0 < rows blob5 \<and> 0 < cols blob5
   \<and> (\<exists>out. fillHoles blob5 = Inr out \<and> fillHoles out = Inr out)"
proof -
  have h: "wf blob5" "0 < rows blob5" "0 < cols blob5" by (simp_all add: blob5_def)
  show ?thesis using h fillHoles_idempotent [OF h] by simp
qed

text \<open>
  Claim C10. \<open>fillHoles\<close> never adds foreground: its result has the dimensions of the
  input, every pixel of it is at most the pixel of the input at the same position, and
  a foreground pixel of the result is a foreground pixel of the input.
\<close>

theorem fillHoles_never_adds_foreground:
  assumes "wf src" "fillHoles src = Inr out"
  shows "rows out = rows src \<and> cols out = cols src
    \<and> (\<forall>i < rows src. \<forall>j < cols src.
          pix out (i, j) \<le> pix src (i, j) \<and> (pix out (i, j) \<noteq> 0 \<longrightarrow> pix src (i, j) \<noteq> 0))"
proof (cases "0 < rows src \<and> 0 < cols src")
  case True
  then have "out = build (rows src) (cols src) (\<lambda>i j. if (i, j) \<in> kept src then pix src (i, j) else 0)"
    using fillHoles_eq [OF assms(1)] assms(2) by simp
  then show ?thesis by simp
next
  case False
  then show ?thesis using fillHoles_dims [OF assms(2)] by auto
qed

theorem fillHoles_never_adds_foreground_witness:
  "wf blob5
   \<and> fillHoles blob5 = Inr (build 5 5 (\<lambda>i j. if (i, j) \<in> kept blob5 then pix blob5 (i, j) else 0))
   \<and> rows (build 5 5 (\<lambda>i j. if (i, j) \<in> kept blob5 then pix blob5 (i, j) else 0)) = rows blob5
   \<and> cols (build 5 5 (\<lambda>i j. if (i, j) \<in> kept blob5 then pix blob5 (i, j) else 0)) = cols blob5
   \<and> pix (build 5 5 (\<lambda>i j. if (i, j) \<in> kept blob5 then pix blob5 (i, j) else 0)) (2, 2)
        \<le> pix blob5 (2, 2)"
proof -
  let ?out = "build 5 5 (\<lambda>i j. if (i, j) \<in> kept blob5 then pix blob5 (i, j) else 0)"
  have w: "wf blob5" by (simp add: blob5_def)
  have h: "fillHoles blob5 = Inr ?out"
    using fillHoles_eq [OF w] by (simp add: blob5_def)
  have r: "(2::nat) < rows blob5" "(2::nat) < cols blob5" by (simp_all add: blob5_def)
  have c: "rows ?out = rows blob5 \<and> cols ?out = cols blob5
    \<and> (\<forall>i < rows blob5. \<forall>j < cols blob5.
          pix ?out (i, j) \<le> pix blob5 (i, j) \<and> (pix ?out (i, j) \<noteq> 0 \<longrightarrow> pix blob5 (i, j) \<noteq> 0))"
    by (rule fillHoles_never_adds_foreground [OF w h])
  then have "pix ?out (2, 2) \<le> pix blob5 (2, 2)" using r by blast
  then show ?thesis using w h c by blast
qed

text \<open>
  Claim C3. Two invocations of the pipeline on the same input return the same pair of
  circles. The coarse pass visits the radii in the order of \<open>range\<close> over a Go map,
  which differs from run to run, and a radius replaces the winner only with strictly
  more votes. On the edge image \<open>im7\<close> the radii 5 and 6 both reach two votes: the run
  that visits 5 first returns \<open>(5,0,5)\<close> twice, the run that visits 6 first returns
  \<open>(6,0,6)\<close> twice.
\<close>

theorem range_order_decides_the_winner:
  "findBestCircle ideal im7 = Inr (\<lparr> X = 5, Y = 0, R = 5 \<rparr>, \<lparr> X = 5, Y = 0, R = 5 \<rparr>)
   \<and> findBestCircle swapped im7 = Inr (\<lparr> X = 6, Y = 0, R = 6 \<rparr>, \<lparr> X = 6, Y = 0, R = 6 \<rparr>)"
  using findBestCircle_im7_ideal findBestCircle_im7_swapped by (rule conjI)

text \<open>
  Claim C5. The fine pass searches the candidates whose \<open>x\<close>, \<open>y\<close> and \<open>r\<close> lie within
  \<open>uncertainty\<close> of the approximate circle, both ends included. The loop over the
  radius at line 237 stops before \<open>approximate.R + uncertainty\<close>, unlike the loops over
  rows and columns: a winner with a vote never has that radius.
\<close>

theorem fine_pass_skips_last_radius:
  assumes "finePass ev im a u = Inr (w, wv)" "0 < wv"
  shows "R a - u \<le> R w \<and> R w < R a + u
    \<and> Y a - u \<le> Y w \<and> Y w \<le> Y a + u \<and> X a - u \<le> X w \<and> X w \<le> X a + u"
  using finePass_inCube [OF assms(1)] assms(2) by (simp add: inCube_def)

theorem fine_pass_skips_last_radius_witness:
  "finePass ideal blob5 \<lparr> X = 2, Y = 2, R = 0 \<rparr> 1 = Inr (\<lparr> X = 2, Y = 2, R = - 1 \<rparr>, 4)
   \<and> (0 :: int) < 4
   \<and> R \<lparr> X = 2, Y = 2, R = 0 \<rparr> - 1 \<le> R \<lparr> X = 2, Y = 2, R = - 1 \<rparr>
   \<and> R \<lparr> X = 2, Y = 2, R = - 1 \<rparr> < R \<lparr> X = 2, Y = 2, R = 0 \<rparr> + 1"
proof -
  have h: "finePass ideal blob5 \<lparr> X = 2, Y = 2, R = 0 \<rparr> 1 = Inr (\<lparr> X = 2, Y = 2, R = - 1 \<rparr>, 4)"
    by (rule finePass_blob5)
  have p: "(0 :: int) < 4" by simp
  show ?thesis using h p fine_pass_skips_last_radius [OF h p] by simp
qed

end
